theory Spec2Isabelle
  imports Main "HOL-Library.Sublist" "HOL-Library.AList" "HOL-Library.Multiset"
begin

section \<open>The duplicate asset scanner (class AssetAudit)\<close>

text \<open>
  The scanner walks a directory tree, keeps the files that pass the exclusion, extension
  and size filters, hashes their content and groups them by digest. The embedding follows
  the class method by method. Mutation of the instance is explicit state passing over the
  record \<open>scanner\<close>; an exception is a value \<open>js_error\<close> returned beside the state
  (the state keeps the mutations done before the throw); the file system is a finite tree
  that fixes the result of every \<open>readdirSync\<close>, \<open>statSync\<close> and \<open>readFileSync\<close>
  call of one scan (the tree does not change while it is scanned). Sizes and counters are
  natural numbers (JavaScript numbers are exact on integers below \<open>2^53\<close>); a Buffer and
  a string are both \<open>char list\<close>. A \<open>Map\<close> iterates in insertion order and
  \<open>Array.prototype.sort\<close> is stable, as ECMAScript specifies them.
\<close>

subsection \<open>Platform: path separator, content digest and number parsing\<close>

text \<open>
  A JavaScript number as the options hold it: \<open>NaN\<close> or an integer. (\<open>parseInt\<close>
  returns \<open>NaN\<close>, an integer-valued double or, for a digit string too long for a double,
  an infinity; the infinities and fractional numbers are not represented.)
\<close>

datatype jsnum = NaN | Num int

text \<open>
  What the scanner takes from Node.js is a parameter of the model. \<open>sep\<close> is
  \<open>path.sep\<close>. \<open>md5\<close> is \<open>crypto.createHash('md5').update(content).digest('hex')\<close>.
  \<open>parseInt\<close> is the global function of that name, called with one argument: the
  string, or \<open>undefined\<close> (\<open>None\<close>); its result is the number the program holds.
\<close>

record platform =
  sep :: string
  md5 :: "string \<Rightarrow> string"
  parseInt :: "string option \<Rightarrow> jsnum"

subsection \<open>Options and the constructor\<close>

text \<open>The options object handed to the constructor: every property may be absent.\<close>

record raw_options =
  opt_minSize :: "jsnum option"
  opt_exclude :: "string list option"
  opt_verbose :: "bool option"
  opt_json :: "bool option"
  opt_extensions :: "string list option"

record options =
  minSize :: int
  excludePatterns :: "string list"
  verbose :: bool
  json :: bool
  extensions :: "string list"

record file_record =
  path :: string
  relativePath :: string
  fsize :: nat
  extension :: string

datatype console_line =
    LogScanning string
  | LogProcessed nat
  | ProgressLine nat nat
  | ErrorReading string
  | ErrorScanning string

text \<open>
  The instance. \<open>filesByHash\<close> is the JavaScript Map, an association list in insertion
  order of its keys. \<open>console\<close> is what the instance has written to stdout and stderr.
  \<open>hashed\<close> is a history variable, not a field of the class: it records, in order, every
  record pushed into \<open>filesByHash\<close> together with the content that \<open>readFileSync\<close>
  returned for it. No method reads it.
\<close>

record scanner =
  options :: options
  filesByHash :: "(string \<times> file_record list) list"
  processedFiles :: nat
  totalFiles :: nat
  console :: "console_line list"
  hashed :: "(file_record \<times> string) list"

definition defaultExcludes :: "string list" where
  "defaultExcludes = [''node_modules'', ''.git'', ''dist'', ''build'', ''.next'', ''coverage'']"

definition defaultExtensions :: "string list" where
  "defaultExtensions =
     [''.png'', ''.jpg'', ''.jpeg'', ''.gif'', ''.svg'', ''.webp'', ''.ico'', ''.avif'',
      ''.woff'', ''.woff2'', ''.ttf'', ''.eot'', ''.otf'',
      ''.mp4'', ''.webm'', ''.mp3'', ''.wav'',
      ''.pdf'']"

text \<open>\<open>x || d\<close> on a number: \<open>undefined\<close>, \<open>NaN\<close> and \<open>0\<close> are falsy.\<close>

fun num_or :: "jsnum option \<Rightarrow> int \<Rightarrow> int" where
  "num_or None d = d"
| "num_or (Some NaN) d = d"
| "num_or (Some (Num n)) d = (if n = 0 then d else n)"

text \<open>\<open>x || d\<close> on an array: only \<open>undefined\<close> is falsy (an empty array is truthy).\<close>

fun list_or :: "'a list option \<Rightarrow> 'a list \<Rightarrow> 'a list" where
  "list_or None d = d"
| "list_or (Some xs) d = xs"

fun bool_or :: "bool option \<Rightarrow> bool \<Rightarrow> bool" where
  "bool_or None d = d"
| "bool_or (Some b) d = (b \<or> d)"

definition constructor :: "raw_options \<Rightarrow> scanner" where
  "constructor opts =
     \<lparr> options =
         \<lparr> minSize = num_or (opt_minSize opts) 100,
           excludePatterns = list_or (opt_exclude opts) defaultExcludes,
           verbose = bool_or (opt_verbose opts) False,
           json = bool_or (opt_json opts) False,
           extensions = list_or (opt_extensions opts) defaultExtensions \<rparr>,
       filesByHash = [],
       processedFiles = 0,
       totalFiles = 0,
       console = [],
       hashed = [] \<rparr>"

subsection \<open>String and path helpers\<close>

text \<open>\<open>String.prototype.includes\<close>: \<open>p\<close> occurs in \<open>s\<close> as a contiguous substring.\<close>

fun str_includes :: "string \<Rightarrow> string \<Rightarrow> bool" where
  "str_includes [] p = (p = [])"
| "str_includes (c # cs) p = (prefix p (c # cs) \<or> str_includes cs p)"

text \<open>\<open>String.prototype.toLowerCase\<close> on ASCII letters.\<close>

definition lower_char :: "char \<Rightarrow> char" where
  "lower_char c =
     (let n = (of_char c :: nat) in if 65 \<le> n \<and> n \<le> 90 then char_of (n + 32) else c)"

definition toLowerCase :: "string \<Rightarrow> string" where
  "toLowerCase s = map lower_char s"

text \<open>
  \<open>path.extname\<close>: within the last component of the path (the text after the last
  separator; the scanner's paths have no trailing separator), the text from the last dot
  on, and the empty string when that component has no dot, when its only dot is its first
  character, or when it is \<open>..\<close>.
\<close>

definition lastComponent :: "platform \<Rightarrow> string \<Rightarrow> string" where
  "lastComponent P p = rev (takeWhile (\<lambda>c. [c] \<noteq> sep P) (rev p))"

definition extname :: "platform \<Rightarrow> string \<Rightarrow> string" where
  "extname P p =
     (let name = lastComponent P p
      in if CHR ''.'' \<notin> set name then []
         else let ext = CHR ''.'' # rev (takeWhile (\<lambda>c. c \<noteq> CHR ''.'') (rev name));
                  stem = take (length name - length ext) name
              in if stem = [] \<or> name = ''..'' then [] else ext)"

text \<open>
  \<open>path.join(dir, name)\<close> and \<open>path.relative(from, to)\<close> on the arguments the scanner
  gives them: \<open>dir\<close> is a normalised absolute path, \<open>name\<close> a directory entry's name and
  \<open>to\<close> a path below \<open>from\<close>.
\<close>

definition path_join :: "platform \<Rightarrow> string \<Rightarrow> string \<Rightarrow> string" where
  "path_join P dir name = (if suffix (sep P) dir then dir @ name else dir @ sep P @ name)"

definition path_relative :: "platform \<Rightarrow> string \<Rightarrow> string \<Rightarrow> string" where
  "path_relative P from to =
     (if suffix (sep P) from then drop (length from) to
      else drop (length from + length (sep P)) to)"

subsection \<open>The file system\<close>

text \<open>
  A directory entry as \<open>readdirSync(dir, {withFileTypes: true})\<close> gives it, with the
  results of the later calls on it: a file carries the result of \<open>statSync\<close> (its size, or
  \<open>None\<close> when the call throws) and of \<open>readFileSync\<close> (its content, or \<open>None\<close> when the
  call throws); a directory carries its own listing (\<open>None\<close> when \<open>readdirSync\<close> throws);
  any other entry (a symbolic link, a socket) is neither \<open>isDirectory()\<close> nor \<open>isFile()\<close>.
\<close>

datatype dirent =
    FileEnt string "nat option" "string option"
  | DirEnt string "dirent list option"
  | OtherEnt string

datatype js_error = FsError string

subsection \<open>The methods\<close>

definition getFileHash ::
  "platform \<Rightarrow> string \<Rightarrow> string option \<Rightarrow> scanner \<Rightarrow> string option \<times> scanner" where
  "getFileHash P filePath content s =
     (case content of
        Some c \<Rightarrow> (Some (md5 P c), s)
      | None \<Rightarrow>
          (None,
           if verbose (options s) then s\<lparr>console := console s @ [ErrorReading filePath]\<rparr>
           else s))"

definition shouldExclude :: "platform \<Rightarrow> scanner \<Rightarrow> string \<Rightarrow> bool" where
  "shouldExclude P s filePath =
     list_ex (\<lambda>pattern. str_includes filePath pattern
                \<or> str_includes filePath (sep P @ pattern @ sep P))
       (excludePatterns (options s))"

definition hasValidExtension :: "platform \<Rightarrow> scanner \<Rightarrow> string \<Rightarrow> bool" where
  "hasValidExtension P s filePath =
     (let ext = toLowerCase (extname P filePath) in List.member (extensions (options s)) ext)"

text \<open>
  \<open>filesByHash.get(hash).push(r)\<close> after the \<open>has\<close>/\<open>set\<close> guard. \<open>AList.update\<close> keeps
  the position of a key that is present and appends a new key, as \<open>Map.prototype.set\<close>
  does. The key is present when \<open>get\<close> runs, so the \<open>None\<close> branch is never taken.
\<close>

definition pushRecord ::
  "string \<Rightarrow> file_record \<Rightarrow> (string \<times> file_record list) list
     \<Rightarrow> (string \<times> file_record list) list" where
  "pushRecord h r m =
     (let m1 = (if map_of m h = None then AList.update h [] m else m)
      in case map_of m1 h of
           Some fs \<Rightarrow> AList.update h (fs @ [r]) m1
         | None \<Rightarrow> m1)"

definition processFile ::
  "platform \<Rightarrow> string \<Rightarrow> string \<Rightarrow> nat \<Rightarrow> string option \<Rightarrow> scanner \<Rightarrow> scanner" where
  "processFile P fullPath relPath stats_size content s0 =
     (let s1 = s0\<lparr>processedFiles := processedFiles s0 + 1\<rparr>;
          s2 = (if verbose (options s1) \<and> processedFiles s1 mod 100 = 0
                then s1\<lparr>console := console s1
                          @ [ProgressLine (processedFiles s1) (totalFiles s1)]\<rparr>
                else s1)
      in case getFileHash P fullPath content s2 of
           (None, s3) \<Rightarrow> s3
         | (Some h, s3) \<Rightarrow>
             if h = [] then s3
             else
               let r = \<lparr> path = fullPath, relativePath = relPath, fsize = stats_size,
                         extension = toLowerCase (extname P fullPath) \<rparr>
               in s3\<lparr>filesByHash := pushRecord h r (filesByHash s3),
                      hashed := hashed s3 @ [(r, the content)]\<rparr>)"

text \<open>The \<open>catch\<close> block of \<open>scanDirectory\<close>: the error is logged when verbose, and dropped.\<close>

fun catchScan :: "string \<Rightarrow> js_error option \<times> scanner \<Rightarrow> js_error option \<times> scanner" where
  "catchScan dir (None, s) = (None, s)"
| "catchScan dir (Some err, s) =
     (None,
      if verbose (options s) then s\<lparr>console := console s @ [ErrorScanning dir]\<rparr> else s)"

text \<open>\<open>if (!baseDir) baseDir = dir\<close>: \<open>null\<close> and the empty string are falsy.\<close>

fun baseOr :: "string option \<Rightarrow> string \<Rightarrow> string" where
  "baseOr None dir = dir"
| "baseOr (Some b) dir = (if b = [] then dir else b)"

text \<open>
  \<open>scanDirectory\<close>, its \<open>for\<close> loop (\<open>scanLoop\<close>) and the loop body (\<open>scanEntry\<close>). The
  first component of the result is the exception that leaves the call, if any.
\<close>

fun scanDirectory ::
    "platform \<Rightarrow> string \<Rightarrow> string option \<Rightarrow> dirent list option \<Rightarrow> scanner
       \<Rightarrow> js_error option \<times> scanner"
  and scanLoop ::
    "platform \<Rightarrow> string \<Rightarrow> string \<Rightarrow> dirent list \<Rightarrow> scanner \<Rightarrow> js_error option \<times> scanner"
  and scanEntry ::
    "platform \<Rightarrow> string \<Rightarrow> string \<Rightarrow> dirent \<Rightarrow> scanner \<Rightarrow> js_error option \<times> scanner"
where
  "scanDirectory P dir baseDir None s = catchScan dir (Some (FsError dir), s)"
| "scanDirectory P dir baseDir (Some entries) s =
     catchScan dir (scanLoop P dir (baseOr baseDir dir) entries s)"
| "scanLoop P dir baseDir [] s = (None, s)"
| "scanLoop P dir baseDir (entry # rest) s =
     (case scanEntry P dir baseDir entry s of
        (Some err, s') \<Rightarrow> (Some err, s')
      | (None, s') \<Rightarrow> scanLoop P dir baseDir rest s')"
| "scanEntry P dir baseDir (DirEnt name listing) s =
     (let fullPath = path_join P dir name;
          relPath = path_relative P baseDir fullPath
      in if shouldExclude P s relPath then (None, s)
         else scanDirectory P fullPath (Some baseDir) listing s)"
| "scanEntry P dir baseDir (FileEnt name stat content) s =
     (let fullPath = path_join P dir name;
          relPath = path_relative P baseDir fullPath
      in if shouldExclude P s relPath then (None, s)
         else if hasValidExtension P s name then
           (let s1 = s\<lparr>totalFiles := totalFiles s + 1\<rparr>
            in case stat of
                 None \<Rightarrow> (Some (FsError fullPath), s1)
               | Some stats_size \<Rightarrow>
                   if int stats_size \<ge> minSize (options s1)
                   then (None, processFile P fullPath relPath stats_size content s1)
                   else (None, s1))
         else (None, s))"
| "scanEntry P dir baseDir (OtherEnt name) s = (None, s)"

subsection \<open>The report\<close>

text \<open>
  The group's \<open>count\<close> and \<open>extension\<close> and the number \<open>stats.duplicateGroups\<close> are
  named \<open>gcount\<close>, \<open>gextension\<close> and \<open>numDuplicateGroups\<close> here, to keep them apart from
  the record fields of the same name.
\<close>

record duplicateGroup =
  hash :: string
  gcount :: nat
  fileSize :: nat
  wastedBytes :: nat
  gextension :: string
  files :: "string list"

record stats =
  totalFilesScanned :: nat
  totalFilesProcessed :: nat
  uniqueFiles :: nat
  numDuplicateGroups :: nat
  totalDuplicates :: nat
  totalWastedBytes :: nat

record scanReport =
  stats :: stats
  duplicateGroups :: "duplicateGroup list"

text \<open>
  The loop over \<open>filesByHash.entries()\<close>, in the Map's insertion order; the accumulator is
  the pair of \<open>duplicateGroups\<close> and \<open>totalWastedBytes\<close>. \<open>files[0]\<close> and
  \<open>files.length - 1\<close> are only evaluated under \<open>files.length > 1\<close>.
\<close>

fun collectGroups ::
  "(string \<times> file_record list) list \<Rightarrow> duplicateGroup list \<times> nat
     \<Rightarrow> duplicateGroup list \<times> nat" where
  "collectGroups [] result = result"
| "collectGroups ((h, fs) # rest) (groups, acc) =
     (if length fs > 1 then
        (let wasted = fsize (hd fs) * (length fs - 1)
         in collectGroups rest
              (groups @ [\<lparr> hash = h, gcount = length fs, fileSize = fsize (hd fs),
                           wastedBytes = wasted, gextension = extension (hd fs),
                           files = map relativePath fs \<rparr>],
               acc + wasted))
      else collectGroups rest (groups, acc))"

text \<open>
  \<open>Array.prototype.sort\<close> with a comparator: a stable sort (ECMAScript 2019), here by
  insertion. \<open>x\<close> goes before the first element it does not compare greater than, and the
  elements are inserted from the last to the first, so equal elements keep their order.
\<close>

fun sort_insert :: "('a \<Rightarrow> 'a \<Rightarrow> int) \<Rightarrow> 'a \<Rightarrow> 'a list \<Rightarrow> 'a list" where
  "sort_insert cmp x [] = [x]"
| "sort_insert cmp x (y # ys) =
     (if cmp x y \<le> 0 then x # y # ys else y # sort_insert cmp x ys)"

definition array_sort :: "('a \<Rightarrow> 'a \<Rightarrow> int) \<Rightarrow> 'a list \<Rightarrow> 'a list" where
  "array_sort cmp xs = foldr (sort_insert cmp) xs []"

definition byWasted :: "duplicateGroup \<Rightarrow> duplicateGroup \<Rightarrow> int" where
  "byWasted a b = int (wastedBytes b) - int (wastedBytes a)"

text \<open>
  \<open>analyze\<close> has no \<open>try\<close>: an exception leaving \<open>scanDirectory\<close> would leave
  \<open>analyze\<close> too (\<open>Inl\<close>). In \<open>acc + g.count - 1\<close> the count is at least 2.
\<close>

definition analyze ::
  "platform \<Rightarrow> string \<Rightarrow> dirent list option \<Rightarrow> scanner
     \<Rightarrow> (js_error + scanReport) \<times> scanner" where
  "analyze P directory listing s0 =
     (let s1 = s0\<lparr>console := console s0 @ [LogScanning directory]\<rparr>
      in case scanDirectory P directory None listing s1 of
           (Some err, s2) \<Rightarrow> (Inl err, s2)
         | (None, s2) \<Rightarrow>
             (let s3 = (if verbose (options s2)
                        then s2\<lparr>console := console s2 @ [LogProcessed (processedFiles s2)]\<rparr>
                        else s2);
                  (groups, wasted) = collectGroups (filesByHash s3) ([], 0);
                  sorted = array_sort byWasted groups;
                  st = \<lparr> totalFilesScanned = totalFiles s3,
                         totalFilesProcessed = processedFiles s3,
                         uniqueFiles = length (filesByHash s3),
                         numDuplicateGroups = length sorted,
                         totalDuplicates = foldl (\<lambda>acc g. acc + gcount g - 1) 0 sorted,
                         totalWastedBytes = wasted \<rparr>
              in (Inr \<lparr> stats = st, duplicateGroups = sorted \<rparr>, s3)))"

subsection \<open>The command line\<close>

text \<open>\<open>str.split('=')\<close>: the pieces between the \<open>=\<close> signs, at least one.\<close>

fun split_eq :: "string \<Rightarrow> string list" where
  "split_eq [] = [[]]"
| "split_eq (c # cs) =
     (if c = CHR ''='' then [] # split_eq cs
      else (case split_eq cs of p # ps \<Rightarrow> (c # p) # ps | [] \<Rightarrow> [[c]]))"

text \<open>
  The body of \<open>args.forEach\<close> in \<open>main\<close>. \<open>value\<close> is \<open>undefined\<close> when the argument has no
  \<open>=\<close>; an \<open>undefined\<close> exclude pattern acts as the string \<open>undefined\<close> wherever the scanner
  uses it (\<open>includes\<close> and \<open>+\<close> convert it).
\<close>

definition parseArg :: "platform \<Rightarrow> string \<Rightarrow> raw_options \<Rightarrow> raw_options" where
  "parseArg P arg opts =
     (if prefix ''--'' arg then
        (let pieces = split_eq (drop 2 arg);
             key = hd pieces;
             val = (case tl pieces of [] \<Rightarrow> None | v # _ \<Rightarrow> Some v)
         in if key = ''min-size'' then
              opts\<lparr>opt_minSize := Some (Num (num_or (Some (parseInt P val)) 100))\<rparr>
            else if key = ''exclude'' then
              opts\<lparr>opt_exclude :=
                     Some (list_or (opt_exclude opts) []
                           @ [case val of None \<Rightarrow> ''undefined'' | Some v \<Rightarrow> v])\<rparr>
            else if key = ''json'' then opts\<lparr>opt_json := Some True\<rparr>
            else if key = ''verbose'' then opts\<lparr>opt_verbose := Some True\<rparr>
            else opts)
      else opts)"

definition emptyOptions :: raw_options where
  "emptyOptions =
     \<lparr> opt_minSize = None, opt_exclude = None, opt_verbose = None, opt_json = None,
       opt_extensions = None \<rparr>"

text \<open>
  The options \<open>main\<close> hands to the constructor; \<open>None\<close> when it prints the help text and
  exits instead.
\<close>

definition mainOptions :: "platform \<Rightarrow> string list \<Rightarrow> raw_options option" where
  "mainOptions P args =
     (if args = [] \<or> hd args = ''--help'' \<or> hd args = ''-h'' then None
      else
        (let opts = foldl (\<lambda>opts arg. parseArg P arg opts) emptyOptions args
         in Some (case opt_exclude opts of
                    None \<Rightarrow> opts\<lparr>opt_exclude := Some defaultExcludes\<rparr>
                  | Some _ \<Rightarrow> opts)))"

subsection \<open>Notions used to state the properties\<close>

text \<open>
  \<open>replay\<close> rebuilds the Map from the history of pushed records; \<open>bucket\<close> lists the
  records pushed under one digest and \<open>withContent\<close> those pushed with one content, both in
  the order of the walk; \<open>firstSeen\<close> is the position in the history of the first record
  with a given digest; \<open>mkGroup\<close> is the object literal that \<open>analyze\<close> pushes for one
  Map entry; \<open>recordCount\<close> is the number of records in the Map.
\<close>

definition replay ::
  "platform \<Rightarrow> (file_record \<times> string) list \<Rightarrow> (string \<times> file_record list) list" where
  "replay P tr = foldl (\<lambda>m rc. pushRecord (md5 P (snd rc)) (fst rc) m) [] tr"

definition bucket ::
  "platform \<Rightarrow> string \<Rightarrow> (file_record \<times> string) list \<Rightarrow> file_record list" where
  "bucket P h tr = map fst (filter (\<lambda>rc. md5 P (snd rc) = h) tr)"

definition firstSeen :: "platform \<Rightarrow> string \<Rightarrow> (file_record \<times> string) list \<Rightarrow> nat" where
  "firstSeen P h tr = length (takeWhile (\<lambda>rc. md5 P (snd rc) \<noteq> h) tr)"

definition mkGroup :: "string \<times> file_record list \<Rightarrow> duplicateGroup" where
  "mkGroup e = \<lparr> hash = fst e, gcount = length (snd e), fileSize = fsize (hd (snd e)),
                 wastedBytes = fsize (hd (snd e)) * (length (snd e) - 1),
                 gextension = extension (hd (snd e)), files = map relativePath (snd e) \<rparr>"

definition withContent ::
  "string \<Rightarrow> (file_record \<times> string) list \<Rightarrow> file_record list" where
  "withContent c tr = map fst (filter (\<lambda>rc. snd rc = c) tr)"


text \<open>
  \<open>ranked R\<close> orders two groups by more wasted bytes first and, on equal wasted bytes,
  by \<open>R\<close>.
\<close>

definition ranked ::
  "(duplicateGroup \<Rightarrow> duplicateGroup \<Rightarrow> bool) \<Rightarrow> duplicateGroup \<Rightarrow> duplicateGroup \<Rightarrow> bool"
  where
  "ranked R a b = (wastedBytes a > wastedBytes b \<or> (wastedBytes a = wastedBytes b \<and> R a b))"

fun entryName :: "dirent \<Rightarrow> string" where
  "entryName (FileEnt name stat content) = name"
| "entryName (DirEnt name listing) = name"
| "entryName (OtherEnt name) = name"


text \<open>
  A platform for worked examples: the POSIX separator, an injective stand-in for the
  digest that is never empty, and a stand-in for \<open>parseInt\<close> that reads the longest
  prefix of ASCII decimal digits (\<open>NaN\<close> when there is none).
\<close>

definition decimalPrefix :: "string option \<Rightarrow> jsnum" where
  "decimalPrefix v =
     (case v of
        None \<Rightarrow> NaN
      | Some str \<Rightarrow>
          (let ds = takeWhile (\<lambda>c. 48 \<le> (of_char c :: nat) \<and> (of_char c :: nat) \<le> 57) str
           in if ds = [] then NaN
              else Num (foldl (\<lambda>acc c. acc * 10 + (int (of_char c) - 48)) 0 ds)))"

definition examplePlatform :: platform where
  "examplePlatform = \<lparr> sep = ''/'', md5 = (\<lambda>c. CHR ''#'' # c), parseInt = decimalPrefix \<rparr>"

definition exampleOptions :: raw_options where
  "exampleOptions = emptyOptions\<lparr>opt_minSize := Some (Num 2)\<rparr>"

definition exampleListing :: "dirent list option" where
  "exampleListing =
     Some [FileEnt ''a.png'' (Some 3) (Some ''abc''),
           DirEnt ''sub'' (Some [FileEnt ''b.jpg'' (Some 3) (Some ''abc''),
                                 FileEnt ''c.png'' (Some 3) (Some ''xyz'')]),
           FileEnt ''d.png'' (Some 4) (Some ''wxyz''),
           FileEnt ''e.png'' (Some 4) (Some ''wxyz''),
           FileEnt ''f.png'' (Some 3) (Some ''xyz''),
           FileEnt ''g.png'' (Some 3) None,
           FileEnt ''t.png'' (Some 1) (Some ''t''),
           DirEnt ''node_modules'' (Some [FileEnt ''h.png'' (Some 3) (Some ''abc'')]),
           DirEnt ''locked'' None]"

definition exampleReport :: scanReport where
  "exampleReport =
     \<lparr> stats = \<lparr> totalFilesScanned = 8, totalFilesProcessed = 7, uniqueFiles = 3,
                   numDuplicateGroups = 3, totalDuplicates = 3, totalWastedBytes = 10 \<rparr>,
       duplicateGroups =
         [\<lparr> hash = ''#wxyz'', gcount = 2, fileSize = 4, wastedBytes = 4,
             gextension = ''.png'', files = [''d.png'', ''e.png''] \<rparr>,
          \<lparr> hash = ''#abc'', gcount = 2, fileSize = 3, wastedBytes = 3,
             gextension = ''.png'', files = [''a.png'', ''sub/b.jpg''] \<rparr>,
          \<lparr> hash = ''#xyz'', gcount = 2, fileSize = 3, wastedBytes = 3,
             gextension = ''.png'', files = [''sub/c.png'', ''f.png''] \<rparr>] \<rparr>"

definition verboseOptions :: raw_options where
  "verboseOptions = exampleOptions\<lparr>opt_verbose := Some True\<rparr>"



definition tinyListing :: "dirent list option" where
  "tinyListing =
     Some [FileEnt ''tiny.png'' (Some 50) (Some (replicate 50 (CHR ''x''))),
           FileEnt ''tiny2.png'' (Some 50) (Some (replicate 50 (CHR ''x'')))]"

definition tinyReport :: scanReport where
  "tinyReport =
     \<lparr> stats = \<lparr> totalFilesScanned = 2, totalFilesProcessed = 0, uniqueFiles = 0,
                   numDuplicateGroups = 0, totalDuplicates = 0, totalWastedBytes = 0 \<rparr>,
       duplicateGroups = [] \<rparr>"

subsection \<open>The same tree listed in another order\<close>

text \<open>
  \<open>sameTree e e'\<close>: the two entries are the same file system object, and the listings of
  the directories below may come in different orders. \<open>statOk\<close>: no \<open>statSync\<close> call on a
  file of the tree throws. \<open>fresh s\<close> is an instance with the options of \<open>s\<close> and empty
  accumulators, as the constructor leaves them.
\<close>

inductive sameTree :: "dirent \<Rightarrow> dirent \<Rightarrow> bool" where
  sameFile: "sameTree (FileEnt name stat content) (FileEnt name stat content)"
| sameOther: "sameTree (OtherEnt name) (OtherEnt name)"
| sameUnlisted: "sameTree (DirEnt name None) (DirEnt name None)"
| sameDir: "list_all2 sameTree es es'' \<Longrightarrow> mset es'' = mset es'
            \<Longrightarrow> sameTree (DirEnt name (Some es)) (DirEnt name (Some es'))"

fun statOk :: "dirent \<Rightarrow> bool" where
  "statOk (FileEnt name stat content) = (stat \<noteq> None)"
| "statOk (DirEnt name None) = True"
| "statOk (DirEnt name (Some entries)) = list_all statOk entries"
| "statOk (OtherEnt name) = True"

definition fresh :: "scanner \<Rightarrow> scanner" where
  "fresh s = s\<lparr>filesByHash := [], processedFiles := 0, totalFiles := 0, console := [],
              hashed := []\<rparr>"

text \<open>
  \<open>additive X\<close>: whether the step \<open>X\<close> raises, and what it adds to the history and the
  counters, depends on the instance only through its options. \<open>agree X Y\<close>: the steps
  \<open>X\<close> and \<open>Y\<close> raise nothing and add the same counts and, up to order, the same hashed
  files.
\<close>

definition additive :: "(scanner \<Rightarrow> js_error option \<times> scanner) \<Rightarrow> bool" where
  "additive X =
     (\<forall>s. fst (X s) = fst (X (fresh s))
        \<and> options (snd (X s)) = options s
        \<and> hashed (snd (X s)) = hashed s @ hashed (snd (X (fresh s)))
        \<and> totalFiles (snd (X s)) = totalFiles s + totalFiles (snd (X (fresh s)))
        \<and> processedFiles (snd (X s)) = processedFiles s + processedFiles (snd (X (fresh s))))"

definition agree ::
  "(scanner \<Rightarrow> js_error option \<times> scanner) \<Rightarrow> (scanner \<Rightarrow> js_error option \<times> scanner) \<Rightarrow> bool" where
  "agree X Y =
     (\<forall>s. fst (X s) = None \<and> fst (Y s) = None
        \<and> mset (hashed (snd (Y (fresh s)))) = mset (hashed (snd (X (fresh s))))
        \<and> totalFiles (snd (Y (fresh s))) = totalFiles (snd (X (fresh s)))
        \<and> processedFiles (snd (Y (fresh s))) = processedFiles (snd (X (fresh s))))"

text \<open>
  What a duplicate group says apart from its \<open>extension\<close> and the order of its member
  list: digest, count, file size, wasted bytes, and the members as a multiset.
\<close>

definition groupView ::
  "duplicateGroup \<Rightarrow> string \<times> nat \<times> nat \<times> nat \<times> string multiset" where
  "groupView g = (hash g, gcount g, fileSize g, wastedBytes g, mset (files g))"

text \<open>One directory with two copies of a file, listed in the one and in the other order.\<close>

definition listingAB :: "dirent list option" where
  "listingAB = Some [FileEnt ''a.png'' (Some 3) (Some ''abc''),
                     FileEnt ''b.jpg'' (Some 3) (Some ''abc'')]"

definition listingBA :: "dirent list option" where
  "listingBA = Some [FileEnt ''b.jpg'' (Some 3) (Some ''abc''),
                     FileEnt ''a.png'' (Some 3) (Some ''abc'')]"

definition reportAB :: scanReport where
  "reportAB =
     \<lparr> stats = \<lparr> totalFilesScanned = 2, totalFilesProcessed = 2, uniqueFiles = 1,
                   numDuplicateGroups = 1, totalDuplicates = 1, totalWastedBytes = 3 \<rparr>,
       duplicateGroups =
         [\<lparr> hash = ''#abc'', gcount = 2, fileSize = 3, wastedBytes = 3,
             gextension = ''.png'', files = [''a.png'', ''b.jpg''] \<rparr>] \<rparr>"

definition reportBA :: scanReport where
  "reportBA =
     \<lparr> stats = \<lparr> totalFilesScanned = 2, totalFilesProcessed = 2, uniqueFiles = 1,
                   numDuplicateGroups = 1, totalDuplicates = 1, totalWastedBytes = 3 \<rparr>,
       duplicateGroups =
         [\<lparr> hash = ''#abc'', gcount = 2, fileSize = 3, wastedBytes = 3,
             gextension = ''.jpg'', files = [''b.jpg'', ''a.png''] \<rparr>] \<rparr>"

subsection \<open>The files that the walk sees\<close>

text \<open>
  The traversal as its description has it, not a function of the program: the walk is
  depth-first; an entry whose relative path is excluded is pruned; a directory that is
  not pruned is descended into; a file that is not pruned and whose extension is allowed
  is seen. \<open>seenFiles\<close> lists the files seen below a directory in the order of the
  walk, each with its two paths and with what \<open>statSync\<close> and \<open>readFileSync\<close> give
  for it (\<open>seenSize\<close> is \<open>None\<close> when \<open>statSync\<close> fails on the file); relative paths
  are taken from the scan root, as \<open>scanDirectory\<close> passes it down. \<open>seenBelow\<close> lists
  the files seen below the directory handed to \<open>analyze\<close>.
  \<open>atLeastMin\<close> and \<open>belowMin\<close> compare the size of a seen file with \<open>minSize\<close>,
  and \<open>hashedOf\<close> is the record of a seen file that is large enough and whose content
  is read and digested (no record otherwise).
\<close>

record seen_file =
  seenPath :: string
  seenRelativePath :: string
  seenSize :: "nat option"
  seenContent :: "string option"

fun seenFiles :: "platform \<Rightarrow> scanner \<Rightarrow> string \<Rightarrow> string \<Rightarrow> dirent list \<Rightarrow> seen_file list"
  and seenEntry :: "platform \<Rightarrow> scanner \<Rightarrow> string \<Rightarrow> string \<Rightarrow> dirent \<Rightarrow> seen_file list"
where
  "seenFiles P s dir baseDir [] = []"
| "seenFiles P s dir baseDir (entry # rest) =
     seenEntry P s dir baseDir entry @ seenFiles P s dir baseDir rest"
| "seenEntry P s dir baseDir (DirEnt name listing) =
     (if shouldExclude P s (path_relative P baseDir (path_join P dir name)) then []
      else case listing of
             None \<Rightarrow> []
           | Some entries \<Rightarrow>
               seenFiles P s (path_join P dir name)
                 (baseOr (Some baseDir) (path_join P dir name)) entries)"
| "seenEntry P s dir baseDir (FileEnt name stat content) =
     (if shouldExclude P s (path_relative P baseDir (path_join P dir name)) then []
      else if hasValidExtension P s name then
        [\<lparr> seenPath = path_join P dir name,
            seenRelativePath = path_relative P baseDir (path_join P dir name),
            seenSize = stat, seenContent = content \<rparr>]
      else [])"
| "seenEntry P s dir baseDir (OtherEnt name) = []"

definition seenBelow :: "platform \<Rightarrow> scanner \<Rightarrow> string \<Rightarrow> dirent list option \<Rightarrow> seen_file list" where
  "seenBelow P s dir listing =
     (case listing of None \<Rightarrow> [] | Some entries \<Rightarrow> seenFiles P s dir (baseOr None dir) entries)"

definition atLeastMin :: "scanner \<Rightarrow> seen_file \<Rightarrow> bool" where
  "atLeastMin s f = (case seenSize f of None \<Rightarrow> False | Some n \<Rightarrow> minSize (options s) \<le> int n)"

definition belowMin :: "scanner \<Rightarrow> seen_file \<Rightarrow> bool" where
  "belowMin s f = (case seenSize f of None \<Rightarrow> False | Some n \<Rightarrow> int n < minSize (options s))"

definition hashedOf :: "platform \<Rightarrow> scanner \<Rightarrow> seen_file \<Rightarrow> (file_record \<times> string) list" where
  "hashedOf P s f =
     (case (seenSize f, seenContent f) of
        (Some n, Some c) \<Rightarrow>
          if minSize (options s) \<le> int n \<and> md5 P c \<noteq> []
          then [(\<lparr> path = seenPath f, relativePath = seenRelativePath f, fsize = n,
                    extension = toLowerCase (extname P (seenPath f)) \<rparr>, c)]
          else []
      | _ \<Rightarrow> [])"

subsection \<open>A tree with one more small file\<close>

text \<open>
  \<open>statThrows\<close>: the loop body raises on this entry, which it does when the entry is a
  file that is not excluded and has an allowed extension, and \<open>statSync\<close> throws on it.
  \<open>smallFileAdded P s dir baseDir es es'\<close>: the listing \<open>es'\<close> of the directory \<open>dir\<close>
  is \<open>es\<close> with one more file, in \<open>dir\<close> itself or in a directory below it. The file
  is not excluded, has an allowed extension and is smaller than \<open>minSize\<close>, and the walk
  reaches it: the directories on the way down to it are listed and not excluded, and in
  each of them, and in the file's own directory, the loop body raises on no earlier
  entry. \<open>oneMoreScanned r r'\<close>: the two results of a step differ by one more file in
  \<open>totalFiles\<close> (and possibly in what was written to the console).
\<close>

fun statThrows :: "platform \<Rightarrow> scanner \<Rightarrow> string \<Rightarrow> string \<Rightarrow> dirent \<Rightarrow> bool" where
  "statThrows P s dir baseDir (FileEnt name stat content) =
     (stat = None \<and> \<not> shouldExclude P s (path_relative P baseDir (path_join P dir name))
      \<and> hasValidExtension P s name)"
| "statThrows P s dir baseDir (DirEnt name listing) = False"
| "statThrows P s dir baseDir (OtherEnt name) = False"

inductive smallFileAdded ::
  "platform \<Rightarrow> scanner \<Rightarrow> string \<Rightarrow> string \<Rightarrow> dirent list \<Rightarrow> dirent list \<Rightarrow> bool"
  for P :: platform and s :: scanner
where
  addHere:
    "\<not> list_ex (statThrows P s dir baseDir) before
     \<Longrightarrow> \<not> shouldExclude P s (path_relative P baseDir (path_join P dir name))
     \<Longrightarrow> hasValidExtension P s name
     \<Longrightarrow> int sz < minSize (options s)
     \<Longrightarrow> smallFileAdded P s dir baseDir (before @ after)
           (before @ FileEnt name (Some sz) content # after)"
| addBelow:
    "\<not> list_ex (statThrows P s dir baseDir) before
     \<Longrightarrow> \<not> shouldExclude P s (path_relative P baseDir (path_join P dir name))
     \<Longrightarrow> smallFileAdded P s (path_join P dir name)
           (baseOr (Some baseDir) (path_join P dir name)) es es'
     \<Longrightarrow> smallFileAdded P s dir baseDir (before @ DirEnt name (Some es) # after)
           (before @ DirEnt name (Some es') # after)"








section \<open>Basic facts about the methods\<close>

lemma str_includes_iff: "str_includes s p \<longleftrightarrow> (\<exists>a b. s = a @ p @ b)"
proof (induction s)
  case Nil
  then show ?case by simp
next
  case (Cons c cs)
  show ?case
  proof
    assume "str_includes (c # cs) p"
    then consider "prefix p (c # cs)" | "str_includes cs p" by auto
    then show "\<exists>a b. c # cs = a @ p @ b"
    proof cases
      case 1
      then obtain b where "c # cs = p @ b" by (auto simp: prefix_def)
      then have "c # cs = [] @ p @ b" by simp
      then show ?thesis by blast
    next
      case 2
      with Cons.IH obtain a b where "cs = a @ p @ b" by blast
      then have "c # cs = (c # a) @ p @ b" by simp
      then show ?thesis by blast
    qed
  next
    assume "\<exists>a b. c # cs = a @ p @ b"
    then obtain a b where ab: "c # cs = a @ p @ b" by blast
    show "str_includes (c # cs) p"
    proof (cases a)
      case Nil
      with ab have "prefix p (c # cs)" by (simp add: prefix_def)
      then show ?thesis by simp
    next
      case (Cons x a')
      with ab have "cs = a' @ p @ b" by simp
      with Cons.IH have "str_includes cs p" by blast
      then show ?thesis by simp
    qed
  qed
qed

lemma shouldExclude_iff:
  "shouldExclude P s f \<longleftrightarrow> (\<exists>p \<in> set (excludePatterns (options s)). \<exists>a b. f = a @ p @ b)"
proof -
  have "(\<exists>a b. f = a @ (sep P @ p @ sep P) @ b) \<Longrightarrow> (\<exists>a b. f = a @ p @ b)" for p
  proof -
    assume "\<exists>a b. f = a @ (sep P @ p @ sep P) @ b"
    then obtain a b where "f = a @ (sep P @ p @ sep P) @ b" by blast
    then have "f = (a @ sep P) @ p @ (sep P @ b)" by simp
    then show ?thesis by blast
  qed
  then show ?thesis
    unfolding shouldExclude_def list_ex_iff str_includes_iff by blast
qed

lemma getFileHash_options [simp]: "options (snd (getFileHash P f c s)) = options s"
  by (simp add: getFileHash_def split: option.splits)

lemma processFile_options [simp]: "options (processFile P f r n c s) = options s"
  by (simp add: processFile_def getFileHash_def Let_def split: option.splits prod.splits)

lemma catchScan_options [simp]: "options (snd (catchScan d r)) = options (snd r)"
  by (cases r; cases "fst r") (auto)

lemma catchScan_fst [simp]: "fst (catchScan d r) = None"
  by (cases r; cases "fst r") (auto)

lemma scan_options:
  "options (snd (scanDirectory P dir b l s)) = options s"
  "options (snd (scanLoop P dir bd es s)) = options s"
  "options (snd (scanEntry P dir bd e s)) = options s"
proof (induction P dir b l s and P dir bd es s and P dir bd e s
       rule: scanDirectory_scanLoop_scanEntry.induct)
  case (4 P dir baseDir entry rest s)
  then show ?case
    by (cases "scanEntry P dir baseDir entry s"; cases "fst (scanEntry P dir baseDir entry s)")
       (auto split: prod.splits option.splits)
next
  case (6 P dir baseDir name stat content s)
  then show ?case by (auto simp: Let_def split: option.splits)
qed (auto simp: Let_def)

lemma scanDirectory_no_exception: "fst (scanDirectory P dir b l s) = None"
  by (cases l) simp_all

subsection \<open>The Map as a function of the history\<close>

lemma map_of_pushRecord:
  "map_of (pushRecord h r m) =
     (map_of m)(h \<mapsto> (case map_of m h of None \<Rightarrow> [r] | Some fs \<Rightarrow> fs @ [r]))"
  by (auto simp: pushRecord_def Let_def AList.update_conv' split: option.splits)

lemma keys_pushRecord:
  "map fst (pushRecord h r m) = (if h \<in> set (map fst m) then map fst m else map fst m @ [h])"
  by (auto simp: pushRecord_def Let_def AList.update_conv' AList.update_keys map_of_eq_None_iff
           split: option.splits)

lemma replay_snoc: "replay P (tr @ [rc]) = pushRecord (md5 P (snd rc)) (fst rc) (replay P tr)"
  by (simp add: replay_def)

lemma replay_Nil [simp]: "replay P [] = []"
  by (simp add: replay_def)

lemma keys_replay: "set (map fst (replay P tr)) = (\<lambda>rc. md5 P (snd rc)) ` set tr"
  by (induction tr rule: rev_induct) (auto simp: replay_snoc keys_pushRecord)

lemma distinct_replay: "distinct (map fst (replay P tr))"
  by (induction tr rule: rev_induct) (auto simp: replay_snoc keys_pushRecord)

lemma map_of_replay:
  "map_of (replay P tr) h = (if bucket P h tr = [] then None else Some (bucket P h tr))"
proof (induction tr rule: rev_induct)
  case Nil
  then show ?case by (simp add: bucket_def)
next
  case (snoc rc tr)
  then show ?case
    by (auto simp: replay_snoc map_of_pushRecord bucket_def)
qed

lemma replay_entry:
  "(h, fs) \<in> set (replay P tr) \<Longrightarrow> fs = bucket P h tr \<and> fs \<noteq> []"
proof -
  assume "(h, fs) \<in> set (replay P tr)"
  then have "map_of (replay P tr) h = Some fs"
    using distinct_replay by (simp add: map_of_eq_Some_iff)
  then show ?thesis by (auto simp: map_of_replay split: if_splits)
qed

lemma firstSeen_less:
  assumes "h \<in> (\<lambda>rc. md5 P (snd rc)) ` set tr"
  shows "firstSeen P h tr < length tr"
proof -
  let ?Q = "\<lambda>rc. md5 P (snd rc) \<noteq> h"
  have "\<not> (\<forall>x \<in> set tr. ?Q x)" using assms by auto
  then have ne: "takeWhile ?Q tr \<noteq> tr" by (simp add: takeWhile_eq_all_conv)
  have "length (takeWhile ?Q tr) \<noteq> length tr"
  proof
    assume "length (takeWhile ?Q tr) = length tr"
    then have "take (length (takeWhile ?Q tr)) tr = tr" by simp
    then show False using ne takeWhile_eq_take[of ?Q tr] by simp
  qed
  moreover have "length (takeWhile ?Q tr) \<le> length tr" by (rule length_takeWhile_le)
  ultimately show ?thesis by (simp add: firstSeen_def)
qed

lemma firstSeen_snoc_old:
  assumes "h \<in> (\<lambda>rc. md5 P (snd rc)) ` set tr"
  shows "firstSeen P h (tr @ [rc]) = firstSeen P h tr"
proof -
  from assms obtain x where "x \<in> set tr" "\<not> (md5 P (snd x) \<noteq> h)" by auto
  then show ?thesis
    unfolding firstSeen_def by (simp add: takeWhile_append1[of x])
qed

lemma firstSeen_snoc_new:
  assumes "h \<notin> (\<lambda>rc. md5 P (snd rc)) ` set tr"
  shows "firstSeen P h (tr @ [rc]) \<ge> length tr"
proof -
  have "\<And>x. x \<in> set tr \<Longrightarrow> md5 P (snd x) \<noteq> h" using assms by auto
  then have "takeWhile (\<lambda>rc. md5 P (snd rc) \<noteq> h) (tr @ [rc])
               = tr @ takeWhile (\<lambda>rc. md5 P (snd rc) \<noteq> h) [rc]"
    by (rule takeWhile_append2)
  then show ?thesis unfolding firstSeen_def by simp
qed

lemma replay_order:
  "sorted_wrt (\<lambda>h1 h2. firstSeen P h1 tr < firstSeen P h2 tr) (map fst (replay P tr))"
proof (induction tr rule: rev_induct)
  case Nil
  then show ?case by simp
next
  case (snoc rc tr)
  let ?ks = "map fst (replay P tr)"
  let ?k = "md5 P (snd rc)"
  have mem: "h \<in> (\<lambda>rc. md5 P (snd rc)) ` set tr" if "h \<in> set ?ks" for h
    using that by (simp only: keys_replay)
  have old: "firstSeen P h (tr @ [rc]) = firstSeen P h tr" if "h \<in> set ?ks" for h
    using mem[OF that] by (rule firstSeen_snoc_old)
  have sorted_old:
    "sorted_wrt (\<lambda>h1 h2. firstSeen P h1 (tr @ [rc]) < firstSeen P h2 (tr @ [rc])) ?ks"
    by (rule sorted_wrt_mono_rel[OF _ snoc.IH]) (simp add: old)
  show ?case
  proof (cases "?k \<in> set ?ks")
    case True
    then have "map fst (replay P (tr @ [rc])) = ?ks"
      by (simp only: replay_snoc keys_pushRecord if_True)
    then show ?thesis using sorted_old by simp
  next
    case False
    then have keys: "map fst (replay P (tr @ [rc])) = ?ks @ [?k]"
      by (simp only: replay_snoc keys_pushRecord if_False)
    have "?k \<notin> (\<lambda>rc. md5 P (snd rc)) ` set tr"
      using False keys_replay[of P tr] by simp
    then have new: "length tr \<le> firstSeen P ?k (tr @ [rc])"
      by (rule firstSeen_snoc_new)
    have "firstSeen P h (tr @ [rc]) < firstSeen P ?k (tr @ [rc])" if "h \<in> set ?ks" for h
    proof -
      have "firstSeen P h tr < length tr" using mem[OF that] by (rule firstSeen_less)
      then show ?thesis using old[OF that] new by simp
    qed
    then show ?thesis
      unfolding keys using sorted_old by (simp add: sorted_wrt_append)
  qed
qed

lemma collectGroups_eq:
  "collectGroups m (gs, t) =
     (gs @ map mkGroup (filter (\<lambda>e. length (snd e) > 1) m),
      t + sum_list (map wastedBytes (map mkGroup (filter (\<lambda>e. length (snd e) > 1) m))))"
  by (induction m arbitrary: gs t) (auto simp: mkGroup_def Let_def)

lemma set_sort_insert: "set (sort_insert cmp x ys) = insert x (set ys)"
  by (induction ys) auto

lemma set_array_sort: "set (array_sort cmp xs) = set xs"
  by (induction xs) (auto simp: array_sort_def set_sort_insert)

lemma sum_sort_insert: "sum_list (map f (sort_insert cmp x ys)) = f x + sum_list (map (f :: 'a \<Rightarrow> nat) ys)"
  by (induction ys) auto

lemma sum_array_sort: "sum_list (map f (array_sort cmp xs)) = sum_list (map (f :: 'a \<Rightarrow> nat) xs)"
  by (induction xs) (auto simp: array_sort_def sum_sort_insert)

lemma length_sort_insert: "length (sort_insert cmp x ys) = Suc (length ys)"
  by (induction ys) auto

lemma length_array_sort: "length (array_sort cmp xs) = length xs"
  by (induction xs) (auto simp: array_sort_def length_sort_insert)

lemma sorted_sort_insert:
  "sorted_wrt (ranked R) ys \<Longrightarrow> \<forall>y \<in> set ys. R x y \<Longrightarrow> sorted_wrt (ranked R) (sort_insert byWasted x ys)"
  by (induction ys) (auto simp: set_sort_insert byWasted_def ranked_def)

lemma sorted_array_sort:
  "sorted_wrt R xs \<Longrightarrow> sorted_wrt (ranked R) (array_sort byWasted xs)"
proof (induction xs)
  case Nil
  then show ?case by (simp add: array_sort_def)
next
  case (Cons x xs)
  then have "sorted_wrt (ranked R) (array_sort byWasted xs)" by simp
  moreover have "\<forall>y \<in> set (array_sort byWasted xs). R x y"
    using Cons.prems by (simp add: set_array_sort)
  ultimately show ?case
    using sorted_sort_insert by (simp add: array_sort_def)
qed

subsection \<open>Invariants of the walk\<close>

lemma catchScan_eq:
  "catchScan d r = (None, if fst r \<noteq> None \<and> verbose (options (snd r))
                           then (snd r)\<lparr>console := console (snd r) @ [ErrorScanning d]\<rparr> else snd r)"
  by (cases r; cases "fst r") auto

lemma scan_invariant:
  assumes pf: "\<And>P s f r n c. I P s \<Longrightarrow> minSize (options s) \<le> int n \<Longrightarrow> \<not> shouldExclude P s r
                 \<Longrightarrow> I P (processFile P f r n c s)"
      and tf: "\<And>P s n. I P s \<Longrightarrow> I P (s\<lparr>totalFiles := n\<rparr>)"
      and co: "\<And>P s l. I P s \<Longrightarrow> I P (s\<lparr>console := l\<rparr>)"
  shows "I P s \<Longrightarrow> I P (snd (scanDirectory P dir b l s))"
    and "I P s \<Longrightarrow> I P (snd (scanLoop P dir bd es s))"
    and "I P s \<Longrightarrow> I P (snd (scanEntry P dir bd e s))"
proof (induction P dir b l s and P dir bd es s and P dir bd e s
       rule: scanDirectory_scanLoop_scanEntry.induct)
  case (1 P dir baseDir s)
  then show ?case using co by (simp add: catchScan_eq)
next
  case (2 P dir baseDir entries s)
  then show ?case using co by (simp add: catchScan_eq)
next
  case (3 P dir baseDir s)
  then show ?case by simp
next
  case (4 P dir baseDir entry rest s)
  show ?case
  proof (cases "scanEntry P dir baseDir entry s")
    case (Pair x y)
    then have y: "I P y" using 4(1)[OF 4(3)] by simp
    show ?thesis
    proof (cases x)
      case None
      then show ?thesis using Pair 4(2)[OF Pair[symmetric] None y] by simp
    next
      case (Some err)
      then show ?thesis using Pair y by simp
    qed
  qed
next
  case (5 P dir baseDir name listing s)
  then show ?case by (simp add: Let_def)
next
  case (6 P dir baseDir name stat content s)
  have 1: "I P (s\<lparr>totalFiles := totalFiles s + 1\<rparr>)" using 6 tf by blast
  show ?case
  proof (cases stat)
    case None
    then show ?thesis using 6 1 by (simp add: Let_def)
  next
    case (Some n)
    have "I P (processFile P (path_join P dir name)
               (path_relative P baseDir (path_join P dir name)) n content
               (s\<lparr>totalFiles := totalFiles s + 1\<rparr>))"
      if "minSize (options s) \<le> int n"
         "\<not> shouldExclude P s (path_relative P baseDir (path_join P dir name))"
      using that 1 by (intro pf) (simp_all add: shouldExclude_def)
    then show ?thesis using 6 1 Some by (simp add: Let_def)
  qed
next
  case (7 P dir baseDir name s)
  then show ?case by simp
qed

lemma analyze_eq:
  "analyze P d l s =
    (let s2 = snd (scanDirectory P d None l (s\<lparr>console := console s @ [LogScanning d]\<rparr>));
         s3 = (if verbose (options s2)
               then s2\<lparr>console := console s2 @ [LogProcessed (processedFiles s2)]\<rparr> else s2);
         dup = map mkGroup (filter (\<lambda>e. length (snd e) > 1) (filesByHash s3));
         gs = array_sort byWasted dup
     in (Inr \<lparr> stats = \<lparr> totalFilesScanned = totalFiles s3,
                         totalFilesProcessed = processedFiles s3,
                         uniqueFiles = length (filesByHash s3),
                         numDuplicateGroups = length gs,
                         totalDuplicates = foldl (\<lambda>acc g. acc + gcount g - 1) 0 gs,
                         totalWastedBytes = sum_list (map wastedBytes dup) \<rparr>,
               duplicateGroups = gs \<rparr>, s3))"
proof -
  obtain x s2 where r: "scanDirectory P d None l (s\<lparr>console := console s @ [LogScanning d]\<rparr>) = (x, s2)"
    by (cases "scanDirectory P d None l (s\<lparr>console := console s @ [LogScanning d]\<rparr>)")
  have "x = None" using scanDirectory_no_exception[of P d None l "s\<lparr>console := console s @ [LogScanning d]\<rparr>"] r by simp
  then show ?thesis
    unfolding analyze_def Let_def r by (simp add: collectGroups_eq)
qed

lemma analyze_invariant:
  assumes pf: "\<And>P s f r n c. I P s \<Longrightarrow> minSize (options s) \<le> int n \<Longrightarrow> \<not> shouldExclude P s r
                 \<Longrightarrow> I P (processFile P f r n c s)"
      and tf: "\<And>P s n. I P s \<Longrightarrow> I P (s\<lparr>totalFiles := n\<rparr>)"
      and co: "\<And>P s l. I P s \<Longrightarrow> I P (s\<lparr>console := l\<rparr>)"
      and "I P s"
  shows "I P (snd (analyze P d l s))"
proof -
  have "I P (s\<lparr>console := console s @ [LogScanning d]\<rparr>)" using co assms(4) by blast
  then have "I P (snd (scanDirectory P d None l (s\<lparr>console := console s @ [LogScanning d]\<rparr>)))"
    using scan_invariant(1)[of I, OF pf tf co] by blast
  then show ?thesis using co by (simp add: analyze_eq Let_def)
qed

subsection \<open>The loop over a listing\<close>

lemma scanLoop_append:
  "scanLoop P dir bd (xs @ ys) s =
     (case scanLoop P dir bd xs s of
        (Some err, s') \<Rightarrow> (Some err, s')
      | (None, s') \<Rightarrow> scanLoop P dir bd ys s')"
proof (induction xs arbitrary: s)
  case Nil
  then show ?case by simp
next
  case (Cons x xs)
  show ?case
  proof (cases "scanEntry P dir bd x s")
    case (Pair e s1)
    then show ?thesis using Cons.IH[of s1] by (cases e) simp_all
  qed
qed

lemma shouldExclude_cong: "options s' = options s \<Longrightarrow> shouldExclude P s' f = shouldExclude P s f"
  by (simp add: shouldExclude_def)

subsection \<open>The final state of a fresh instance\<close>

lemma processFile_replay:
  "filesByHash s = replay P (hashed s)
     \<Longrightarrow> filesByHash (processFile P f r n c s) = replay P (hashed (processFile P f r n c s))"
  by (cases c) (simp_all add: processFile_def getFileHash_def Let_def replay_snoc)

lemma fresh_replay:
  "filesByHash (snd (analyze P dir listing (constructor raw)))
     = replay P (hashed (snd (analyze P dir listing (constructor raw))))"
  by (rule analyze_invariant[where I = "\<lambda>P s. filesByHash s = replay P (hashed s)"])
     (simp_all add: processFile_replay constructor_def)

lemma bucket_withContent:
  assumes "inj_on (md5 P) (snd ` set tr)" and "c \<in> snd ` set tr"
  shows "bucket P (md5 P c) tr = withContent c tr"
proof -
  have "(md5 P (snd rc) = md5 P c) = (snd rc = c)" if "rc \<in> set tr" for rc
    using assms that by (auto simp: inj_on_eq_iff)
  then have "filter (\<lambda>rc. md5 P (snd rc) = md5 P c) tr = filter (\<lambda>rc. snd rc = c) tr"
    by (intro filter_cong) auto
  then show ?thesis by (simp add: bucket_def withContent_def)
qed

lemma filter_two:
  assumes "i < j" "j < length xs" "Q (xs ! i)" "Q (xs ! j)"
  shows "2 \<le> length (filter Q xs)"
proof -
  have xs: "xs = take j xs @ xs ! j # drop (Suc j) xs"
    using assms(2) by (rule id_take_nth_drop)
  have "xs ! i \<in> set (take j xs)"
    using assms(1,2) by (metis in_set_conv_nth length_take min.absorb2 less_imp_le nth_take)
  then have "filter Q (take j xs) \<noteq> []" using assms(3) by (auto simp: filter_empty_conv)
  then have "1 \<le> length (filter Q (take j xs))" by (cases "filter Q (take j xs)") auto
  moreover have "length (filter Q xs)
       = length (filter Q (take j xs)) + length (filter Q (xs ! j # drop (Suc j) xs))"
    by (subst xs) simp
  ultimately show ?thesis using assms(4) by simp
qed

lemma hd_filter_nth:
  "filter Q xs \<noteq> [] \<Longrightarrow> hd (filter Q xs) = xs ! length (takeWhile (\<lambda>x. \<not> Q x) xs)"
  by (induction xs) auto

lemma fresh_groups:
  assumes "fst (analyze P dir listing (constructor raw)) = Inr rep"
  shows "duplicateGroups rep
           = array_sort byWasted (map mkGroup (filter (\<lambda>e. length (snd e) > 1)
               (replay P (hashed (snd (analyze P dir listing (constructor raw)))))))"
proof -
  have "duplicateGroups rep
           = array_sort byWasted (map mkGroup (filter (\<lambda>e. length (snd e) > 1)
               (filesByHash (snd (analyze P dir listing (constructor raw))))))"
    using assms by (auto simp: analyze_eq Let_def)
  then show ?thesis by (simp only: fresh_replay)
qed

lemma firstSeen_bucket:
  assumes "bucket P h tr \<noteq> []"
  shows "firstSeen P h tr < length tr \<and> hd (bucket P h tr) = fst (tr ! firstSeen P h tr)"
proof -
  let ?Q = "\<lambda>rc. md5 P (snd rc) = h"
  have ne: "filter ?Q tr \<noteq> []" using assms by (simp add: bucket_def)
  then obtain rc where "rc \<in> set tr" "md5 P (snd rc) = h" by (auto simp: filter_empty_conv)
  then have "h \<in> (\<lambda>rc. md5 P (snd rc)) ` set tr" by blast
  then have lt: "firstSeen P h tr < length tr" by (rule firstSeen_less)
  have "hd (filter ?Q tr) = tr ! length (takeWhile (\<lambda>x. \<not> ?Q x) tr)"
    using ne by (rule hd_filter_nth)
  then have "hd (bucket P h tr) = fst (tr ! firstSeen P h tr)"
    using ne by (simp add: bucket_def firstSeen_def hd_map)
  then show ?thesis using lt by simp
qed

subsection \<open>Counters and sizes\<close>




lemma processFile_counts:
  "processedFiles (processFile P f r n content s) = processedFiles s + 1"
  "length (hashed (processFile P f r n content s))
     = length (hashed s) + (if content = None \<or> md5 P (the content) = [] then 0 else 1)"
  "totalFiles (processFile P f r n content s) = totalFiles s"
  by (cases content; simp add: processFile_def getFileHash_def Let_def)+




lemma processFile_sizes:
  assumes "\<forall>rc \<in> set (hashed s). m \<le> int (fsize (fst rc))" "m \<le> int n"
  shows "\<forall>rc \<in> set (hashed (processFile P f r n c s)). m \<le> int (fsize (fst rc))"
  using assms by (cases c) (auto simp: processFile_def getFileHash_def Let_def)

lemma analyze_options: "options (snd (analyze P d l s)) = options s"
  by (rule analyze_invariant[where I = "\<lambda>P s'. options s' = options s"]) simp_all

lemma fresh_sizes:
  "\<forall>rc \<in> set (hashed (snd (analyze P dir listing (constructor raw)))).
      minSize (options (snd (analyze P dir listing (constructor raw)))) \<le> int (fsize (fst rc))"
proof (rule analyze_invariant[where
         I = "\<lambda>P s. \<forall>rc \<in> set (hashed s). minSize (options s) \<le> int (fsize (fst rc))"])
  fix P :: platform and s :: scanner and f r :: string and n :: nat and c :: "string option"
  assume "\<forall>rc \<in> set (hashed s). minSize (options s) \<le> int (fsize (fst rc))"
    and "minSize (options s) \<le> int n"
  then have "\<forall>rc \<in> set (hashed (processFile P f r n c s)). minSize (options s) \<le> int (fsize (fst rc))"
    by (rule processFile_sizes)
  then show "\<forall>rc \<in> set (hashed (processFile P f r n c s)).
               minSize (options (processFile P f r n c s)) \<le> int (fsize (fst rc))"
    by simp
qed (simp_all add: constructor_def)

lemma processFile_paths:
  assumes "\<forall>rc \<in> set (hashed s). Q (relativePath (fst rc))" "Q r"
  shows "\<forall>rc \<in> set (hashed (processFile P f r n c s)). Q (relativePath (fst rc))"
  using assms by (cases c) (auto simp: processFile_def getFileHash_def Let_def)

lemma fresh_not_excluded:
  "\<forall>rc \<in> set (hashed (snd (analyze P dir listing (constructor raw)))).
      \<not> shouldExclude P (snd (analyze P dir listing (constructor raw))) (relativePath (fst rc))"
proof (rule analyze_invariant[where
         I = "\<lambda>P s. \<forall>rc \<in> set (hashed s). \<not> shouldExclude P s (relativePath (fst rc))"])
  fix P :: platform and s :: scanner and f r :: string and n :: nat and c :: "string option"
  assume "\<forall>rc \<in> set (hashed s). \<not> shouldExclude P s (relativePath (fst rc))"
    and "minSize (options s) \<le> int n" and "\<not> shouldExclude P s r"
  then have "\<forall>rc \<in> set (hashed (processFile P f r n c s)).
               \<not> shouldExclude P s (relativePath (fst rc))"
    by (intro processFile_paths[where Q = "\<lambda>x. \<not> shouldExclude P s x"]) simp_all
  then show "\<forall>rc \<in> set (hashed (processFile P f r n c s)).
               \<not> shouldExclude P (processFile P f r n c s) (relativePath (fst rc))"
    by (simp add: shouldExclude_def)
qed (simp_all add: constructor_def shouldExclude_def)

subsection \<open>The walk adds to the accumulators\<close>

lemma fresh_simps [simp]:
  "options (fresh s) = options s" "filesByHash (fresh s) = []" "processedFiles (fresh s) = 0"
  "totalFiles (fresh s) = 0" "console (fresh s) = []" "hashed (fresh s) = []"
  by (simp_all add: fresh_def)

lemma fresh_cong: "options s' = options s \<Longrightarrow> fresh s' = fresh s"
  by (cases s; cases s') (simp add: fresh_def)

lemma fresh_fresh [simp]: "fresh (fresh s) = fresh s"
  by (rule fresh_cong) simp

lemma shouldExclude_fresh [simp]: "shouldExclude P (fresh s) f = shouldExclude P s f"
  by (simp add: shouldExclude_def)

lemma hasValidExtension_fresh [simp]: "hasValidExtension P (fresh s) f = hasValidExtension P s f"
  by (simp add: hasValidExtension_def)

lemma additiveD:
  assumes "additive X"
  shows "fst (X s) = fst (X (fresh s))" "options (snd (X s)) = options s"
    "hashed (snd (X s)) = hashed s @ hashed (snd (X (fresh s)))"
    "totalFiles (snd (X s)) = totalFiles s + totalFiles (snd (X (fresh s)))"
    "processedFiles (snd (X s)) = processedFiles s + processedFiles (snd (X (fresh s)))"
  using assms unfolding additive_def by blast+

lemma additive_skip: "additive (\<lambda>s. (None, s))"
  by (simp add: additive_def)

lemma additive_catch:
  assumes "additive X"
  shows "additive (\<lambda>s. catchScan dir (X s))"
  unfolding additive_def
proof (intro allI)
  fix s
  note a = additiveD[OF assms, of s]
  show "fst (catchScan dir (X s)) = fst (catchScan dir (X (fresh s)))
        \<and> options (snd (catchScan dir (X s))) = options s
        \<and> hashed (snd (catchScan dir (X s))) = hashed s @ hashed (snd (catchScan dir (X (fresh s))))
        \<and> totalFiles (snd (catchScan dir (X s)))
            = totalFiles s + totalFiles (snd (catchScan dir (X (fresh s))))
        \<and> processedFiles (snd (catchScan dir (X s)))
            = processedFiles s + processedFiles (snd (catchScan dir (X (fresh s))))"
    using a by (simp add: catchScan_eq)
qed

lemma additive_if:
  assumes "\<And>s. c s = c (fresh s)" "additive X" "additive Y"
  shows "additive (\<lambda>s. if c s then X s else Y s)"
  unfolding additive_def
proof (intro allI)
  fix s
  note x = additiveD[OF assms(2), of s] and y = additiveD[OF assms(3), of s]
  show "fst (if c s then X s else Y s) = fst (if c (fresh s) then X (fresh s) else Y (fresh s))
        \<and> options (snd (if c s then X s else Y s)) = options s
        \<and> hashed (snd (if c s then X s else Y s))
            = hashed s @ hashed (snd (if c (fresh s) then X (fresh s) else Y (fresh s)))
        \<and> totalFiles (snd (if c s then X s else Y s))
            = totalFiles s + totalFiles (snd (if c (fresh s) then X (fresh s) else Y (fresh s)))
        \<and> processedFiles (snd (if c s then X s else Y s))
            = processedFiles s
              + processedFiles (snd (if c (fresh s) then X (fresh s) else Y (fresh s)))"
    using x y assms(1)[of s] by (cases "c s") simp_all
qed

lemma additive_loop_Nil: "additive (scanLoop P dir bd [])"
  by (simp add: additive_def)

lemma scanLoop_Cons:
  "scanLoop P dir bd (e # es) s =
     (if fst (scanEntry P dir bd e s) = None
      then scanLoop P dir bd es (snd (scanEntry P dir bd e s))
      else scanEntry P dir bd e s)"
  by (cases "scanEntry P dir bd e s"; cases "fst (scanEntry P dir bd e s)") auto

lemma additive_loop_Cons:
  assumes e: "additive (scanEntry P dir bd e)" and es: "additive (scanLoop P dir bd es)"
  shows "additive (scanLoop P dir bd (e # es))"
  unfolding additive_def
proof (intro allI)
  fix s
  let ?s1 = "snd (scanEntry P dir bd e s)" and ?s0 = "snd (scanEntry P dir bd e (fresh s))"
  note a = additiveD[OF e, of s]
  have o0: "options ?s0 = options s" using additiveD(2)[OF e, of "fresh s"] by simp
  have f1: "fresh ?s1 = fresh s" using a(2) by (rule fresh_cong)
  have f0: "fresh ?s0 = fresh s" using o0 by (rule fresh_cong)
  note b1 = additiveD[OF es, of ?s1] and b0 = additiveD[OF es, of ?s0]
  show "fst (scanLoop P dir bd (e # es) s) = fst (scanLoop P dir bd (e # es) (fresh s))
        \<and> options (snd (scanLoop P dir bd (e # es) s)) = options s
        \<and> hashed (snd (scanLoop P dir bd (e # es) s))
            = hashed s @ hashed (snd (scanLoop P dir bd (e # es) (fresh s)))
        \<and> totalFiles (snd (scanLoop P dir bd (e # es) s))
            = totalFiles s + totalFiles (snd (scanLoop P dir bd (e # es) (fresh s)))
        \<and> processedFiles (snd (scanLoop P dir bd (e # es) s))
            = processedFiles s + processedFiles (snd (scanLoop P dir bd (e # es) (fresh s)))"
  proof (cases "fst (scanEntry P dir bd e (fresh s)) = None")
    case True
    then have t: "fst (scanEntry P dir bd e s) = None" using a(1) by simp
    have L: "scanLoop P dir bd (e # es) s = scanLoop P dir bd es ?s1"
      using t by (subst scanLoop_Cons) auto
    have L0: "scanLoop P dir bd (e # es) (fresh s) = scanLoop P dir bd es ?s0"
      using True by (subst scanLoop_Cons) auto
    show ?thesis
      unfolding L L0 using a b1 b0 o0 unfolding f1 f0 by simp
  next
    case False
    then have t: "fst (scanEntry P dir bd e s) \<noteq> None" using a(1) by simp
    have L: "scanLoop P dir bd (e # es) s = scanEntry P dir bd e s"
      using t by (subst scanLoop_Cons) auto
    have L0: "scanLoop P dir bd (e # es) (fresh s) = scanEntry P dir bd e (fresh s)"
      using False by (subst scanLoop_Cons) auto
    show ?thesis
      unfolding L L0 using a by blast
  qed
qed

lemma additive_loop:
  assumes "\<And>e. e \<in> set es \<Longrightarrow> additive (scanEntry P dir bd e)"
  shows "additive (scanLoop P dir bd es)"
  using assms by (induction es) (simp_all add: additive_loop_Nil additive_loop_Cons)

lemma additive_file: "additive (scanEntry P dir bd (FileEnt name stat content))"
  unfolding additive_def
  by (cases stat; cases content)
     (simp_all add: Let_def processFile_def getFileHash_def)

lemma scanDirectory_fun:
  "scanDirectory P dir b l =
     (\<lambda>s. catchScan dir (case l of None \<Rightarrow> (Some (FsError dir), s)
                                  | Some es \<Rightarrow> scanLoop P dir (baseOr b dir) es s))"
  by (cases l) (auto simp: fun_eq_iff)

lemma additive_throw: "additive (\<lambda>s. (Some err, s))"
  by (simp add: additive_def)

lemma additive_dir_of_loop:
  assumes "\<And>es. l = Some es \<Longrightarrow> additive (scanLoop P dir (baseOr b dir) es)"
  shows "additive (scanDirectory P dir b l)"
proof (cases l)
  case None
  have "scanDirectory P dir b None = (\<lambda>s. catchScan dir (Some (FsError dir), s))"
    by (simp add: fun_eq_iff)
  then show ?thesis using None additive_catch[OF additive_throw] by simp
next
  case (Some es)
  have "scanDirectory P dir b (Some es) = (\<lambda>s. catchScan dir (scanLoop P dir (baseOr b dir) es s))"
    by (simp add: fun_eq_iff)
  then show ?thesis using Some additive_catch[OF assms[OF Some]] by simp
qed

lemma scanEntry_dir_fun:
  "scanEntry P dir bd (DirEnt name l) =
     (\<lambda>s. if shouldExclude P s (path_relative P bd (path_join P dir name)) then (None, s)
          else scanDirectory P (path_join P dir name) (Some bd) l s)"
  by (simp add: fun_eq_iff Let_def)

lemma additive_entry: "additive (scanEntry P dir bd e)"
proof (induction e arbitrary: dir bd)
  case (FileEnt name stat content)
  show ?case by (rule additive_file)
next
  case (DirEnt name l)
  have "additive (scanDirectory P (path_join P dir name) (Some bd) l)"
  proof (rule additive_dir_of_loop)
    fix es assume l: "l = Some es"
    show "additive (scanLoop P (path_join P dir name)
                      (baseOr (Some bd) (path_join P dir name)) es)"
    proof (rule additive_loop)
      fix e assume "e \<in> set es"
      moreover have "es \<in> set_option l" by (simp add: l)
      ultimately show "additive (scanEntry P (path_join P dir name)
                         (baseOr (Some bd) (path_join P dir name)) e)"
        using DirEnt.IH by blast
    qed
  qed
  then show ?case
    unfolding scanEntry_dir_fun by (intro additive_if additive_skip) simp_all
next
  case (OtherEnt name)
  have "scanEntry P dir bd (OtherEnt name) = (\<lambda>s. (None, s))" by (simp add: fun_eq_iff)
  then show ?case using additive_skip by simp
qed

lemma additive_scanLoop: "additive (scanLoop P dir bd es)"
  by (rule additive_loop) (rule additive_entry)

lemma additive_scanDirectory: "additive (scanDirectory P dir b l)"
  by (rule additive_dir_of_loop) (rule additive_scanLoop)

subsection \<open>Reordering the listings\<close>

lemma agreeD:
  assumes "agree X Y"
  shows "fst (X s) = None" "fst (Y s) = None"
    "mset (hashed (snd (Y (fresh s)))) = mset (hashed (snd (X (fresh s))))"
    "totalFiles (snd (Y (fresh s))) = totalFiles (snd (X (fresh s)))"
    "processedFiles (snd (Y (fresh s))) = processedFiles (snd (X (fresh s)))"
  using assms unfolding agree_def by blast+

lemma agree_refl: "(\<And>s. fst (X s) = None) \<Longrightarrow> agree X X"
  by (simp add: agree_def)

lemma agree_catch:
  assumes "agree X Y"
  shows "agree (\<lambda>s. catchScan d (X s)) (\<lambda>s. catchScan d (Y s))"
  unfolding agree_def
proof (intro allI)
  fix s
  note a = agreeD[OF assms, of "fresh s"] and b = agreeD[OF assms, of s]
  show "fst (catchScan d (X s)) = None \<and> fst (catchScan d (Y s)) = None
        \<and> mset (hashed (snd (catchScan d (Y (fresh s))))) = mset (hashed (snd (catchScan d (X (fresh s)))))
        \<and> totalFiles (snd (catchScan d (Y (fresh s)))) = totalFiles (snd (catchScan d (X (fresh s))))
        \<and> processedFiles (snd (catchScan d (Y (fresh s))))
            = processedFiles (snd (catchScan d (X (fresh s))))"
    using a b by (simp add: catchScan_eq)
qed

lemma agree_if:
  assumes "\<And>s. c s = c (fresh s)" "agree X Y"
  shows "agree (\<lambda>s. if c s then (None, s) else X s) (\<lambda>s. if c s then (None, s) else Y s)"
  unfolding agree_def
proof (intro allI)
  fix s
  note a = agreeD[OF assms(2), of s]
  show "fst (if c s then (None, s) else X s) = None
        \<and> fst (if c s then (None, s) else Y s) = None
        \<and> mset (hashed (snd (if c (fresh s) then (None, fresh s) else Y (fresh s))))
            = mset (hashed (snd (if c (fresh s) then (None, fresh s) else X (fresh s))))
        \<and> totalFiles (snd (if c (fresh s) then (None, fresh s) else Y (fresh s)))
            = totalFiles (snd (if c (fresh s) then (None, fresh s) else X (fresh s)))
        \<and> processedFiles (snd (if c (fresh s) then (None, fresh s) else Y (fresh s)))
            = processedFiles (snd (if c (fresh s) then (None, fresh s) else X (fresh s)))"
    using a by (cases "c (fresh s)"; cases "c s") simp_all
qed

lemma loop_sum:
  assumes "\<And>e s. e \<in> set es \<Longrightarrow> fst (scanEntry P dir bd e s) = None"
  shows "fst (scanLoop P dir bd es s) = None
       \<and> mset (hashed (snd (scanLoop P dir bd es (fresh s))))
           = sum_list (map (\<lambda>e. mset (hashed (snd (scanEntry P dir bd e (fresh s))))) es)
       \<and> totalFiles (snd (scanLoop P dir bd es (fresh s)))
           = sum_list (map (\<lambda>e. totalFiles (snd (scanEntry P dir bd e (fresh s)))) es)
       \<and> processedFiles (snd (scanLoop P dir bd es (fresh s)))
           = sum_list (map (\<lambda>e. processedFiles (snd (scanEntry P dir bd e (fresh s)))) es)"
  using assms
proof (induction es arbitrary: s)
  case Nil
  then show ?case by simp
next
  case (Cons e es)
  let ?s0 = "snd (scanEntry P dir bd e (fresh s))"
  have none: "fst (scanEntry P dir bd e t) = None" for t using Cons.prems by simp
  have ih: "fst (scanLoop P dir bd es t) = None
       \<and> mset (hashed (snd (scanLoop P dir bd es (fresh t))))
           = sum_list (map (\<lambda>e. mset (hashed (snd (scanEntry P dir bd e (fresh t))))) es)
       \<and> totalFiles (snd (scanLoop P dir bd es (fresh t)))
           = sum_list (map (\<lambda>e. totalFiles (snd (scanEntry P dir bd e (fresh t)))) es)
       \<and> processedFiles (snd (scanLoop P dir bd es (fresh t)))
           = sum_list (map (\<lambda>e. processedFiles (snd (scanEntry P dir bd e (fresh t)))) es)" for t
    using Cons.IH[of t] Cons.prems by simp
  have "options ?s0 = options s"
    using additiveD(2)[OF additive_entry, of P dir bd e "fresh s"] by simp
  then have f0: "fresh ?s0 = fresh s" by (rule fresh_cong)
  note a = additiveD[OF additive_scanLoop, of P dir bd es ?s0]
  have L: "scanLoop P dir bd (e # es) t = scanLoop P dir bd es (snd (scanEntry P dir bd e t))" for t
    using none[of t] by (subst scanLoop_Cons) auto
  show ?case
    unfolding L using ih[of "snd (scanEntry P dir bd e s)"] ih[of s] a unfolding f0 by simp
qed

lemma sum_list_all2:
  "list_all2 (\<lambda>a b. f a = g b) xs ys \<Longrightarrow> sum_list (map f xs) = sum_list (map g ys)"
  by (induction rule: list_all2_induct) simp_all

lemma sum_list_perm:
  fixes f :: "'a \<Rightarrow> 'b::comm_monoid_add"
  shows "mset xs = mset ys \<Longrightarrow> sum_list (map f xs) = sum_list (map f ys)"
  by (metis mset_map sum_mset_sum_list)

lemma agree_loop:
  assumes rel: "list_all2 (\<lambda>a b. agree (scanEntry P dir bd a) (scanEntry P dir bd b)) es es''"
      and perm: "mset es'' = mset es'"
  shows "agree (scanLoop P dir bd es) (scanLoop P dir bd es')"
proof -
  have nl: "\<forall>a \<in> set es. \<forall>s. fst (scanEntry P dir bd a s) = None"
    using rel by (induction rule: list_all2_induct) (auto dest: agreeD(1))
  have nr: "\<forall>b \<in> set es''. \<forall>s. fst (scanEntry P dir bd b s) = None"
    using rel by (induction rule: list_all2_induct) (auto dest: agreeD(2))
  have "set es' = set es''" using perm by (metis mset_eq_setD)
  then have nr': "\<forall>b \<in> set es'. \<forall>s. fst (scanEntry P dir bd b s) = None" using nr by simp
  have h: "list_all2 (\<lambda>a b. mset (hashed (snd (scanEntry P dir bd a (fresh s))))
                          = mset (hashed (snd (scanEntry P dir bd b (fresh s))))) es es''" for s
    using rel by (rule list_all2_mono) (simp add: agreeD(3))
  have t: "list_all2 (\<lambda>a b. totalFiles (snd (scanEntry P dir bd a (fresh s)))
                          = totalFiles (snd (scanEntry P dir bd b (fresh s)))) es es''" for s
    using rel by (rule list_all2_mono) (simp add: agreeD(4))
  have p: "list_all2 (\<lambda>a b. processedFiles (snd (scanEntry P dir bd a (fresh s)))
                          = processedFiles (snd (scanEntry P dir bd b (fresh s)))) es es''" for s
    using rel by (rule list_all2_mono) (simp add: agreeD(5))
  show ?thesis
    unfolding agree_def
  proof (intro allI)
    fix s
    note A = loop_sum[of es P dir bd s] and B = loop_sum[of es' P dir bd s]
    have "sum_list (map (\<lambda>e. mset (hashed (snd (scanEntry P dir bd e (fresh s))))) es')
            = sum_list (map (\<lambda>e. mset (hashed (snd (scanEntry P dir bd e (fresh s))))) es)"
      using sum_list_all2[OF h[of s]] sum_list_perm[OF perm] by metis
    moreover have "sum_list (map (\<lambda>e. totalFiles (snd (scanEntry P dir bd e (fresh s)))) es')
            = sum_list (map (\<lambda>e. totalFiles (snd (scanEntry P dir bd e (fresh s)))) es)"
      using sum_list_all2[OF t[of s]] sum_list_perm[OF perm] by metis
    moreover have "sum_list (map (\<lambda>e. processedFiles (snd (scanEntry P dir bd e (fresh s)))) es')
            = sum_list (map (\<lambda>e. processedFiles (snd (scanEntry P dir bd e (fresh s)))) es)"
      using sum_list_all2[OF p[of s]] sum_list_perm[OF perm] by metis
    ultimately show "fst (scanLoop P dir bd es s) = None \<and> fst (scanLoop P dir bd es' s) = None
        \<and> mset (hashed (snd (scanLoop P dir bd es' (fresh s))))
            = mset (hashed (snd (scanLoop P dir bd es (fresh s))))
        \<and> totalFiles (snd (scanLoop P dir bd es' (fresh s)))
            = totalFiles (snd (scanLoop P dir bd es (fresh s)))
        \<and> processedFiles (snd (scanLoop P dir bd es' (fresh s)))
            = processedFiles (snd (scanLoop P dir bd es (fresh s)))"
      using A B nl nr' by simp
  qed
qed

lemma agree_listing:
  assumes "list_all2 (\<lambda>a b. agree (scanEntry P dir (baseOr b0 dir) a)
                               (scanEntry P dir (baseOr b0 dir) b)) es es''"
      and "mset es'' = mset es'"
  shows "agree (scanDirectory P dir b0 (Some es)) (scanDirectory P dir b0 (Some es'))"
proof -
  have "agree (\<lambda>s. catchScan dir (scanLoop P dir (baseOr b0 dir) es s))
              (\<lambda>s. catchScan dir (scanLoop P dir (baseOr b0 dir) es' s))"
    by (rule agree_catch) (rule agree_loop[OF assms])
  then show ?thesis by (simp add: scanDirectory_fun)
qed

lemma agree_unlisted: "agree (scanDirectory P dir b0 None) (scanDirectory P dir b0 None)"
  by (rule agree_refl) (simp add: catchScan_eq)

lemma agree_entry:
  "sameTree e e' \<Longrightarrow> statOk e \<Longrightarrow> agree (scanEntry P dir bd e) (scanEntry P dir bd e')"
proof (induction arbitrary: dir bd rule: sameTree.induct)
  case (sameFile name stat content)
  then obtain sz where "stat = Some sz" by auto
  then show ?case by (intro agree_refl) (simp add: Let_def)
next
  case (sameOther name)
  show ?case by (intro agree_refl) simp
next
  case (sameUnlisted name)
  show ?case by (intro agree_refl) (simp add: Let_def catchScan_eq)
next
  case (sameDir es es'' es' name)
  have ok: "list_all statOk es" using sameDir.prems by simp
  let ?d = "path_join P dir name"
  have "list_all2 (\<lambda>a b. agree (scanEntry P ?d (baseOr (Some bd) ?d) a)
                            (scanEntry P ?d (baseOr (Some bd) ?d) b)) es es''"
    using sameDir.IH ok
    by (intro list.rel_mono_strong[OF sameDir.IH]) (auto simp: list_all_iff)
  then have "agree (scanDirectory P ?d (Some bd) (Some es)) (scanDirectory P ?d (Some bd) (Some es'))"
    using sameDir.hyps by (rule agree_listing)
  then show ?case
    unfolding scanEntry_dir_fun by (rule agree_if[rotated]) simp
qed

lemma sameTree_DirD:
  assumes "sameTree (DirEnt name l) (DirEnt name' l')"
  shows "(l = None \<and> l' = None)
       \<or> (\<exists>es es'' es'. l = Some es \<and> l' = Some es' \<and> list_all2 sameTree es es''
             \<and> mset es'' = mset es')"
  using assms by (auto elim: sameTree.cases)

lemma agree_root:
  assumes "sameTree (DirEnt name l) (DirEnt name' l')" "statOk (DirEnt name l)"
  shows "agree (scanDirectory P dir b0 l) (scanDirectory P dir b0 l')"
proof -
  from sameTree_DirD[OF assms(1)] consider "l = None" "l' = None"
    | es es'' es' where "l = Some es" "l' = Some es'" "list_all2 sameTree es es''"
        "mset es'' = mset es'"
    by blast
  then show ?thesis
  proof cases
    case 1
    then show ?thesis using agree_unlisted by simp
  next
    case 2
    have ok: "list_all statOk es" using assms(2) 2(1) by simp
    have "list_all2 (\<lambda>a b. agree (scanEntry P dir (baseOr b0 dir) a)
                            (scanEntry P dir (baseOr b0 dir) b)) es es''"
      using ok by (intro list.rel_mono_strong[OF 2(3)]) (auto simp: list_all_iff intro: agree_entry)
    then have "agree (scanDirectory P dir b0 (Some es)) (scanDirectory P dir b0 (Some es'))"
      using 2(4) by (rule agree_listing)
    then show ?thesis using 2(1,2) by simp
  qed
qed

subsection \<open>The report up to order\<close>

lemma mset_sort_insert: "mset (sort_insert cmp x ys) = add_mset x (mset ys)"
  by (induction ys) auto

lemma mset_array_sort: "mset (array_sort cmp xs) = mset xs"
  by (induction xs) (auto simp: array_sort_def mset_sort_insert)

lemma sorted_by_wasted:
  "sorted_wrt (\<lambda>a b. wastedBytes a \<ge> wastedBytes b) (array_sort byWasted xs)"
proof -
  have "sorted_wrt (\<lambda>a b. True) xs" by (induction xs) auto
  then have "sorted_wrt (ranked (\<lambda>a b. True)) (array_sort byWasted xs)"
    by (rule sorted_array_sort)
  then show ?thesis
    by (rule sorted_wrt_mono_rel[rotated]) (auto simp: ranked_def)
qed

lemma replay_as_map:
  "replay P tr = map (\<lambda>h. (h, bucket P h tr)) (map fst (replay P tr))"
proof -
  have "map (\<lambda>e. (fst e, bucket P (fst e) tr)) (replay P tr) = replay P tr"
  proof (rule map_idI)
    fix e assume "e \<in> set (replay P tr)"
    then have "(fst e, snd e) \<in> set (replay P tr)" by simp
    then have "snd e = bucket P (fst e) tr" using replay_entry by blast
    then show "(fst e, bucket P (fst e) tr) = e" by (cases e) simp
  qed
  then show ?thesis by (simp add: comp_def)
qed

lemma mset_keys_replay:
  "mset (map fst (replay P tr)) = mset_set ((\<lambda>rc. md5 P (snd rc)) ` set tr)"
proof -
  have "mset_set (set (map fst (replay P tr))) = mset (map fst (replay P tr))"
    by (rule mset_set_set[OF distinct_replay])
  then show ?thesis by (simp only: keys_replay)
qed

lemma bucket_perm:
  assumes "mset tr1 = mset tr2"
  shows "length (bucket P h tr1) = length (bucket P h tr2)"
    and "mset (map relativePath (bucket P h tr1)) = mset (map relativePath (bucket P h tr2))"
    and "set (bucket P h tr1) = set (bucket P h tr2)"
proof -
  have m: "mset (bucket P h tr1) = mset (bucket P h tr2)"
    using assms by (simp add: bucket_def)
  show "length (bucket P h tr1) = length (bucket P h tr2)" using m by (rule mset_eq_length)
  show "mset (map relativePath (bucket P h tr1)) = mset (map relativePath (bucket P h tr2))"
    using m by simp
  show "set (bucket P h tr1) = set (bucket P h tr2)" using m by (rule mset_eq_setD)
qed

lemma bucket_size:
  assumes "\<forall>rc \<in> set tr. \<forall>rc' \<in> set tr. md5 P (snd rc) = md5 P (snd rc')
             \<longrightarrow> fsize (fst rc) = fsize (fst rc')"
      and "r \<in> set (bucket P h tr)" "r' \<in> set (bucket P h tr)"
  shows "fsize r = fsize r'"
proof -
  obtain rc where rc: "rc \<in> set tr" "md5 P (snd rc) = h" "r = fst rc"
    using assms(2) by (auto simp: bucket_def)
  obtain rc' where rc': "rc' \<in> set tr" "md5 P (snd rc') = h" "r' = fst rc'"
    using assms(3) by (auto simp: bucket_def)
  have "md5 P (snd rc) = md5 P (snd rc')" using rc(2) rc'(2) by simp
  then have "fsize (fst rc) = fsize (fst rc')" using assms(1) rc(1) rc'(1) by blast
  then show ?thesis using rc(3) rc'(3) by simp
qed

lemma groupView_perm:
  assumes perm: "mset tr1 = mset tr2"
      and sizes: "\<forall>rc \<in> set tr1. \<forall>rc' \<in> set tr1. md5 P (snd rc) = md5 P (snd rc')
             \<longrightarrow> fsize (fst rc) = fsize (fst rc')"
      and ne: "bucket P h tr1 \<noteq> []"
  shows "groupView (mkGroup (h, bucket P h tr1)) = groupView (mkGroup (h, bucket P h tr2))"
proof -
  note b = bucket_perm[OF perm, of P h]
  have ne2: "bucket P h tr2 \<noteq> []" using b(1) ne by (metis length_0_conv)
  have "hd (bucket P h tr1) \<in> set (bucket P h tr1)" using ne by simp
  moreover have "hd (bucket P h tr2) \<in> set (bucket P h tr1)" using ne2 b(3) by simp
  ultimately have "fsize (hd (bucket P h tr1)) = fsize (hd (bucket P h tr2))"
    using bucket_size[OF sizes] by blast
  then show ?thesis using b(1,2) by (simp add: groupView_def mkGroup_def)
qed

lemma dup_views:
  "map groupView (map mkGroup (filter (\<lambda>e. length (snd e) > 1) (replay P tr)))
     = map (\<lambda>h. groupView (mkGroup (h, bucket P h tr)))
         (filter (\<lambda>h. length (bucket P h tr) > 1) (map fst (replay P tr)))"
proof -
  have "filter (\<lambda>e. length (snd e) > 1) (map (\<lambda>h. (h, bucket P h tr)) ks)
          = map (\<lambda>h. (h, bucket P h tr)) (filter (\<lambda>h. length (bucket P h tr) > 1) ks)" for ks
    by (induction ks) auto
  note gen = this
  have "filter (\<lambda>e. length (snd e) > 1) (replay P tr)
          = filter (\<lambda>e. length (snd e) > 1)
              (map (\<lambda>h. (h, bucket P h tr)) (map fst (replay P tr)))"
    using replay_as_map[of P tr] by (rule arg_cong)
  also have "\<dots> = map (\<lambda>h. (h, bucket P h tr))
              (filter (\<lambda>h. length (bucket P h tr) > 1) (map fst (replay P tr)))"
    by (rule gen)
  finally have "filter (\<lambda>e. length (snd e) > 1) (replay P tr)
          = map (\<lambda>h. (h, bucket P h tr))
              (filter (\<lambda>h. length (bucket P h tr) > 1) (map fst (replay P tr)))" .
  then have "map groupView (map mkGroup (filter (\<lambda>e. length (snd e) > 1) (replay P tr)))
     = map groupView (map mkGroup (map (\<lambda>h. (h, bucket P h tr))
         (filter (\<lambda>h. length (bucket P h tr) > 1) (map fst (replay P tr)))))"
    by (rule arg_cong)
  then show ?thesis by (simp only: map_map comp_def)
qed

lemma dup_views_perm:
  assumes perm: "mset tr1 = mset tr2"
      and sizes: "\<forall>rc \<in> set tr1. \<forall>rc' \<in> set tr1. md5 P (snd rc) = md5 P (snd rc')
             \<longrightarrow> fsize (fst rc) = fsize (fst rc')"
  shows "mset (map groupView (map mkGroup (filter (\<lambda>e. length (snd e) > 1) (replay P tr2))))
       = mset (map groupView (map mkGroup (filter (\<lambda>e. length (snd e) > 1) (replay P tr1))))"
proof -
  have "set tr1 = set tr2" using perm by (rule mset_eq_setD)
  then have K: "mset (map fst (replay P tr2)) = mset (map fst (replay P tr1))"
    by (simp only: mset_keys_replay)
  have B: "(\<lambda>h. length (bucket P h tr2) > 1) = (\<lambda>h. length (bucket P h tr1) > 1)"
    using bucket_perm(1)[OF perm, of P] by simp
  have "mset (map (\<lambda>h. groupView (mkGroup (h, bucket P h tr2)))
                (filter (\<lambda>h. length (bucket P h tr2) > 1) (map fst (replay P tr2))))
      = image_mset (\<lambda>h. groupView (mkGroup (h, bucket P h tr2)))
          (filter_mset (\<lambda>h. length (bucket P h tr1) > 1) (mset (map fst (replay P tr1))))"
    using K by (simp only: mset_map mset_filter B)
  also have "\<dots> = image_mset (\<lambda>h. groupView (mkGroup (h, bucket P h tr1)))
          (filter_mset (\<lambda>h. length (bucket P h tr1) > 1) (mset (map fst (replay P tr1))))"
  proof (rule image_mset_cong)
    fix h assume "h \<in># filter_mset (\<lambda>h. length (bucket P h tr1) > 1) (mset (map fst (replay P tr1)))"
    then have "bucket P h tr1 \<noteq> []" by auto
    then show "groupView (mkGroup (h, bucket P h tr2)) = groupView (mkGroup (h, bucket P h tr1))"
      using groupView_perm[OF perm sizes] by simp
  qed
  also have "\<dots> = mset (map (\<lambda>h. groupView (mkGroup (h, bucket P h tr1)))
                (filter (\<lambda>h. length (bucket P h tr1) > 1) (map fst (replay P tr1))))"
    by (simp only: mset_map mset_filter)
  finally show ?thesis by (simp only: dup_views)
qed

lemma analyze_fields:
  "hashed (snd (analyze P d l s))
     = hashed (snd (scanDirectory P d None l (s\<lparr>console := console s @ [LogScanning d]\<rparr>)))"
  "totalFiles (snd (analyze P d l s))
     = totalFiles (snd (scanDirectory P d None l (s\<lparr>console := console s @ [LogScanning d]\<rparr>)))"
  "processedFiles (snd (analyze P d l s))
     = processedFiles (snd (scanDirectory P d None l (s\<lparr>console := console s @ [LogScanning d]\<rparr>)))"
  by (simp_all add: analyze_eq Let_def)

lemma final_agree:
  assumes "sameTree (DirEnt name l) (DirEnt name' l')" "statOk (DirEnt name l)"
  shows "mset (hashed (snd (analyze P dir l' (constructor raw))))
           = mset (hashed (snd (analyze P dir l (constructor raw))))"
    and "totalFiles (snd (analyze P dir l' (constructor raw)))
           = totalFiles (snd (analyze P dir l (constructor raw)))"
    and "processedFiles (snd (analyze P dir l' (constructor raw)))
           = processedFiles (snd (analyze P dir l (constructor raw)))"
proof -
  let ?s1 = "(constructor raw)\<lparr>console := console (constructor raw) @ [LogScanning dir]\<rparr>"
  have z: "hashed ?s1 = []" "totalFiles ?s1 = 0" "processedFiles ?s1 = 0"
    by (simp_all add: constructor_def)
  note a = additiveD[OF additive_scanDirectory, of P dir None l ?s1]
  note b = additiveD[OF additive_scanDirectory, of P dir None l' ?s1]
  note c = agreeD[OF agree_root[OF assms], of P dir None ?s1]
  show "mset (hashed (snd (analyze P dir l' (constructor raw))))
           = mset (hashed (snd (analyze P dir l (constructor raw))))"
    unfolding analyze_fields a(3) b(3) z using c(3) by simp
  show "totalFiles (snd (analyze P dir l' (constructor raw)))
           = totalFiles (snd (analyze P dir l (constructor raw)))"
    unfolding analyze_fields a(4) b(4) z using c(4) by simp
  show "processedFiles (snd (analyze P dir l' (constructor raw)))
           = processedFiles (snd (analyze P dir l (constructor raw)))"
    unfolding analyze_fields a(5) b(5) z using c(5) by simp
qed

lemma fresh_report:
  assumes "fst (analyze P dir l (constructor raw)) = Inr rep"
  shows "totalFilesScanned (stats rep) = totalFiles (snd (analyze P dir l (constructor raw)))"
    and "totalFilesProcessed (stats rep) = processedFiles (snd (analyze P dir l (constructor raw)))"
    and "uniqueFiles (stats rep)
           = length (replay P (hashed (snd (analyze P dir l (constructor raw)))))"
    and "numDuplicateGroups (stats rep) = length (duplicateGroups rep)"
    and "totalDuplicates (stats rep)
           = foldl (\<lambda>acc g. acc + gcount g - 1) 0 (duplicateGroups rep)"
    and "totalWastedBytes (stats rep)
           = sum_list (map wastedBytes (map mkGroup (filter (\<lambda>e. length (snd e) > 1)
               (replay P (hashed (snd (analyze P dir l (constructor raw))))))))"
    and "duplicateGroups rep
           = array_sort byWasted (map mkGroup (filter (\<lambda>e. length (snd e) > 1)
               (replay P (hashed (snd (analyze P dir l (constructor raw)))))))"
proof -
  have r: "filesByHash (snd (analyze P dir l (constructor raw)))
             = replay P (hashed (snd (analyze P dir l (constructor raw))))"
    by (rule fresh_replay)
  show "totalFilesScanned (stats rep) = totalFiles (snd (analyze P dir l (constructor raw)))"
    "totalFilesProcessed (stats rep) = processedFiles (snd (analyze P dir l (constructor raw)))"
    "numDuplicateGroups (stats rep) = length (duplicateGroups rep)"
    "totalDuplicates (stats rep)
           = foldl (\<lambda>acc g. acc + gcount g - 1) 0 (duplicateGroups rep)"
    using assms by (auto simp: analyze_eq Let_def)
  have "uniqueFiles (stats rep) = length (filesByHash (snd (analyze P dir l (constructor raw))))"
    using assms by (auto simp: analyze_eq Let_def)
  then show "uniqueFiles (stats rep)
           = length (replay P (hashed (snd (analyze P dir l (constructor raw)))))"
    by (simp only: r)
  have "totalWastedBytes (stats rep)
           = sum_list (map wastedBytes (map mkGroup (filter (\<lambda>e. length (snd e) > 1)
               (filesByHash (snd (analyze P dir l (constructor raw)))))))"
    using assms by (auto simp: analyze_eq Let_def)
  then show "totalWastedBytes (stats rep)
           = sum_list (map wastedBytes (map mkGroup (filter (\<lambda>e. length (snd e) > 1)
               (replay P (hashed (snd (analyze P dir l (constructor raw))))))))"
    by (simp only: r)
  show "duplicateGroups rep
           = array_sort byWasted (map mkGroup (filter (\<lambda>e. length (snd e) > 1)
               (replay P (hashed (snd (analyze P dir l (constructor raw)))))))"
    using assms by (rule fresh_groups)
qed

lemma sum_by_view:
  fixes f :: "'v \<Rightarrow> nat"
  assumes "mset (map v xs) = mset (map v ys)"
  shows "sum_list (map (\<lambda>x. f (v x)) xs) = sum_list (map (\<lambda>x. f (v x)) ys)"
proof -
  have "sum_list (map (\<lambda>x. f (v x)) zs) = sum_mset (image_mset f (mset (map v zs)))" for zs
    by (induction zs) simp_all
  then show ?thesis using assms by simp
qed

lemma foldl_duplicates:
  "\<forall>g \<in> set gs. 1 \<le> gcount g
     \<Longrightarrow> foldl (\<lambda>acc g. acc + gcount g - 1) a gs = a + sum_list (map (\<lambda>g. gcount g - 1) gs)"
  by (induction gs arbitrary: a) simp_all

lemma gcount_mkGroup:
  "\<forall>g \<in> set (array_sort byWasted (map mkGroup (filter (\<lambda>e. length (snd e) > 1) m))). 1 \<le> gcount g"
  by (auto simp: set_array_sort mkGroup_def)

lemma sameTree_AB: "sameTree (DirEnt ''r'' listingAB) (DirEnt ''r'' listingBA)"
  unfolding listingAB_def listingBA_def
proof (rule sameDir)
  show "list_all2 sameTree
          [FileEnt ''a.png'' (Some 3) (Some ''abc''), FileEnt ''b.jpg'' (Some 3) (Some ''abc'')]
          [FileEnt ''a.png'' (Some 3) (Some ''abc''), FileEnt ''b.jpg'' (Some 3) (Some ''abc'')]"
    by (simp add: sameFile)
  show "mset [FileEnt ''a.png'' (Some 3) (Some ''abc''), FileEnt ''b.jpg'' (Some 3) (Some ''abc'')]
          = mset [FileEnt ''b.jpg'' (Some 3) (Some ''abc''), FileEnt ''a.png'' (Some 3) (Some ''abc'')]"
    by simp
qed

subsection \<open>The files seen and the counters\<close>

lemma hasValidExtension_cong:
  "options s' = options s \<Longrightarrow> hasValidExtension P s' f = hasValidExtension P s f"
  by (simp add: hasValidExtension_def)

lemma seen_cong:
  "options s' = options s \<Longrightarrow> seenFiles P s' dir bd es = seenFiles P s dir bd es"
  "options s' = options s \<Longrightarrow> seenEntry P s' dir bd e = seenEntry P s dir bd e"
proof (induction P s dir bd es and P s dir bd e rule: seenFiles_seenEntry.induct)
  case (3 P s dir baseDir name listing)
  then show ?case
    by (cases listing) (simp_all add: shouldExclude_cong[of s' s])
next
  case (4 P s dir baseDir name stat content)
  then show ?case
    by (simp add: shouldExclude_cong[of s' s] hasValidExtension_cong[of s' s])
qed simp_all

lemma sizes_cong:
  "options s' = options s \<Longrightarrow> atLeastMin s' = atLeastMin s"
  "options s' = options s \<Longrightarrow> belowMin s' = belowMin s"
  "options s' = options s \<Longrightarrow> hashedOf P s' = hashedOf P s"
  by (simp_all add: fun_eq_iff atLeastMin_def belowMin_def hashedOf_def split: option.splits)

lemma processFile_hashed:
  "hashed (processFile P f r n content s)
     = hashed s @ (case content of
                     None \<Rightarrow> []
                   | Some c \<Rightarrow> if md5 P c = [] then []
                               else [(\<lparr> path = f, relativePath = r, fsize = n,
                                        extension = toLowerCase (extname P f) \<rparr>, c)])"
  by (cases content) (simp_all add: processFile_def getFileHash_def Let_def)

lemma scan_seen:
  "list_all (\<lambda>f. seenSize f \<noteq> None)
     (case l of None \<Rightarrow> [] | Some es \<Rightarrow> seenFiles P s dir (baseOr b dir) es)
     \<Longrightarrow> totalFiles (snd (scanDirectory P dir b l s))
           = totalFiles s + length (case l of None \<Rightarrow> [] | Some es \<Rightarrow> seenFiles P s dir (baseOr b dir) es)
       \<and> processedFiles (snd (scanDirectory P dir b l s))
           = processedFiles s + length (filter (atLeastMin s)
               (case l of None \<Rightarrow> [] | Some es \<Rightarrow> seenFiles P s dir (baseOr b dir) es))
       \<and> hashed (snd (scanDirectory P dir b l s))
           = hashed s @ concat (map (hashedOf P s)
               (case l of None \<Rightarrow> [] | Some es \<Rightarrow> seenFiles P s dir (baseOr b dir) es))
       \<and> options (snd (scanDirectory P dir b l s)) = options s"
  "list_all (\<lambda>f. seenSize f \<noteq> None) (seenFiles P s dir bd es)
     \<Longrightarrow> fst (scanLoop P dir bd es s) = None
       \<and> totalFiles (snd (scanLoop P dir bd es s)) = totalFiles s + length (seenFiles P s dir bd es)
       \<and> processedFiles (snd (scanLoop P dir bd es s))
           = processedFiles s + length (filter (atLeastMin s) (seenFiles P s dir bd es))
       \<and> hashed (snd (scanLoop P dir bd es s))
           = hashed s @ concat (map (hashedOf P s) (seenFiles P s dir bd es))
       \<and> options (snd (scanLoop P dir bd es s)) = options s"
  "list_all (\<lambda>f. seenSize f \<noteq> None) (seenEntry P s dir bd e)
     \<Longrightarrow> fst (scanEntry P dir bd e s) = None
       \<and> totalFiles (snd (scanEntry P dir bd e s)) = totalFiles s + length (seenEntry P s dir bd e)
       \<and> processedFiles (snd (scanEntry P dir bd e s))
           = processedFiles s + length (filter (atLeastMin s) (seenEntry P s dir bd e))
       \<and> hashed (snd (scanEntry P dir bd e s))
           = hashed s @ concat (map (hashedOf P s) (seenEntry P s dir bd e))
       \<and> options (snd (scanEntry P dir bd e s)) = options s"
proof (induction P dir b l s and P dir bd es s and P dir bd e s
       rule: scanDirectory_scanLoop_scanEntry.induct)
  case (1 P dir baseDir s)
  then show ?case by (simp add: catchScan_eq)
next
  case (2 P dir baseDir entries s)
  then show ?case by (simp add: catchScan_eq)
next
  case (3 P dir baseDir s)
  then show ?case by simp
next
  case (4 P dir baseDir entry rest s)
  obtain x y where Pair: "scanEntry P dir baseDir entry s = (x, y)"
    by (cases "scanEntry P dir baseDir entry s")
  have ok: "list_all (\<lambda>f. seenSize f \<noteq> None) (seenEntry P s dir baseDir entry)"
    "list_all (\<lambda>f. seenSize f \<noteq> None) (seenFiles P s dir baseDir rest)"
    using 4(3) by simp_all
  note e = 4(1)[OF ok(1), unfolded Pair, simplified]
  then have x: "x = None" by simp
  have o: "options y = options s" using e by simp
  have ok': "list_all (\<lambda>f. seenSize f \<noteq> None) (seenFiles P y dir baseDir rest)"
    using ok(2) by (simp only: seen_cong(1)[OF o])
  note r = 4(2)[OF Pair[symmetric] x ok',
             unfolded seen_cong(1)[OF o] sizes_cong(1)[OF o] sizes_cong(3)[OF o]]
  have L: "scanLoop P dir baseDir (entry # rest) s = scanLoop P dir baseDir rest y"
    using Pair x by simp
  show ?case unfolding L using e r by simp
next
  case (5 P dir baseDir name listing s)
  show ?case
  proof (cases "shouldExclude P s (path_relative P baseDir (path_join P dir name))")
    case True
    then show ?thesis by (simp add: Let_def)
  next
    case False
    have ok: "list_all (\<lambda>f. seenSize f \<noteq> None)
                (case listing of
                   None \<Rightarrow> []
                 | Some es \<Rightarrow> seenFiles P s (path_join P dir name)
                               (baseOr (Some baseDir) (path_join P dir name)) es)"
      using 5(2) False by (cases listing) simp_all
    note d = 5(1)[OF refl refl False ok]
    have n: "fst (scanDirectory P (path_join P dir name) (Some baseDir) listing s) = None"
      by (rule scanDirectory_no_exception)
    show ?thesis using False d n by (cases listing) (simp_all add: Let_def)
  qed
next
  case (6 P dir baseDir name stat content s)
  show ?case
  proof (cases "\<not> shouldExclude P s (path_relative P baseDir (path_join P dir name))
                \<and> hasValidExtension P s name")
    case True
    then obtain n where n: "stat = Some n" using 6 by (cases stat) auto
    show ?thesis
      unfolding n using True
      by (cases content)
         (simp_all add: Let_def processFile_hashed processFile_counts processFile_options
            atLeastMin_def hashedOf_def)
  next
    case False
    then show ?thesis by (auto simp: Let_def)
  qed
next
  case (7 P dir baseDir name s)
  then show ?case by simp
qed


lemma fresh_all_sizes:
  "\<forall>rc \<in> set (hashed (snd (analyze P dir listing (constructor raw)))).
      minSize (options (constructor raw)) \<le> int (fsize (fst rc))"
  "\<forall>e \<in> set (filesByHash (snd (analyze P dir listing (constructor raw)))).
      \<forall>f \<in> set (snd e). minSize (options (constructor raw)) \<le> int (fsize f)"
  "fst (analyze P dir listing (constructor raw)) = Inr rep
     \<Longrightarrow> \<forall>g \<in> set (duplicateGroups rep). minSize (options (constructor raw)) \<le> int (fileSize g)"
proof -
  let ?s' = "snd (analyze P dir listing (constructor raw))"
  let ?m = "minSize (options (constructor raw))"
  show h: "\<forall>rc \<in> set (hashed ?s'). ?m \<le> int (fsize (fst rc))"
    using fresh_sizes[of P dir listing raw] by (simp only: analyze_options)
  have b: "?m \<le> int (fsize f)"
    if e: "e \<in> set (filesByHash ?s')" and f: "f \<in> set (snd e)" for e f
  proof -
    have "(fst e, snd e) \<in> set (replay P (hashed ?s'))" using e by (simp add: fresh_replay)
    then have "snd e = bucket P (fst e) (hashed ?s')" using replay_entry by blast
    then obtain rc where "rc \<in> set (hashed ?s')" "f = fst rc"
      using f by (auto simp: bucket_def)
    then show ?thesis using h by blast
  qed
  then show "\<forall>e \<in> set (filesByHash ?s'). \<forall>f \<in> set (snd e). ?m \<le> int (fsize f)" by blast
  show "\<forall>g \<in> set (duplicateGroups rep). ?m \<le> int (fileSize g)"
    if run: "fst (analyze P dir listing (constructor raw)) = Inr rep"
  proof
    fix g assume mem: "g \<in> set (duplicateGroups rep)"
    have "duplicateGroups rep
           = array_sort byWasted (map mkGroup (filter (\<lambda>e. length (snd e) > 1) (filesByHash ?s')))"
      using run by (auto simp: analyze_eq Let_def)
    then obtain e where e: "e \<in> set (filesByHash ?s')" "1 < length (snd e)" "g = mkGroup e"
      using mem by (auto simp: set_array_sort)
    then have "hd (snd e) \<in> set (snd e)" by (cases "snd e") auto
    then have "?m \<le> int (fsize (hd (snd e)))" using b[OF e(1)] by blast
    then show "?m \<le> int (fileSize g)" by (simp add: e(3) mkGroup_def)
  qed
qed

lemma split_by_size:
  assumes "list_all (\<lambda>f. seenSize f \<noteq> None) fs"
  shows "length fs = length (filter (atLeastMin s) fs) + length (filter (belowMin s) fs)"
proof -
  have "filter (belowMin s) fs = filter (\<lambda>f. \<not> atLeastMin s f) fs"
    using assms by (intro filter_cong) (auto simp: belowMin_def atLeastMin_def list_all_iff)
  then show ?thesis by (simp add: sum_length_filter_compl)
qed

lemma fresh_seen:
  assumes "list_all (\<lambda>f. seenSize f \<noteq> None) (seenBelow P (constructor raw) dir listing)"
  shows "totalFiles (snd (analyze P dir listing (constructor raw)))
           = length (seenBelow P (constructor raw) dir listing)"
    and "processedFiles (snd (analyze P dir listing (constructor raw)))
           = length (filter (atLeastMin (constructor raw)) (seenBelow P (constructor raw) dir listing))"
    and "hashed (snd (analyze P dir listing (constructor raw)))
           = concat (map (hashedOf P (constructor raw)) (seenBelow P (constructor raw) dir listing))"
proof -
  let ?s1 = "(constructor raw)\<lparr>console := console (constructor raw) @ [LogScanning dir]\<rparr>"
  have o: "options ?s1 = options (constructor raw)" by simp
  have z: "hashed ?s1 = []" "totalFiles ?s1 = 0" "processedFiles ?s1 = 0"
    by (simp_all add: constructor_def)
  have ok: "list_all (\<lambda>f. seenSize f \<noteq> None)
              (case listing of None \<Rightarrow> [] | Some es \<Rightarrow> seenFiles P ?s1 dir (baseOr None dir) es)"
    using assms unfolding seenBelow_def by (simp only: seen_cong(1)[OF o])
  note S = scan_seen(1)[OF ok,
             unfolded seen_cong(1)[OF o] sizes_cong(1)[OF o] sizes_cong(3)[OF o] z,
             folded seenBelow_def]
  show "totalFiles (snd (analyze P dir listing (constructor raw)))
           = length (seenBelow P (constructor raw) dir listing)"
    "processedFiles (snd (analyze P dir listing (constructor raw)))
           = length (filter (atLeastMin (constructor raw)) (seenBelow P (constructor raw) dir listing))"
    "hashed (snd (analyze P dir listing (constructor raw)))
           = concat (map (hashedOf P (constructor raw)) (seenBelow P (constructor raw) dir listing))"
    unfolding analyze_fields using S by simp_all
qed

lemma scan_seen_le:
  "totalFiles (snd (scanDirectory P dir b l s))
      \<le> totalFiles s + length (case l of None \<Rightarrow> [] | Some es \<Rightarrow> seenFiles P s dir (baseOr b dir) es)
   \<and> processedFiles (snd (scanDirectory P dir b l s))
      \<le> processedFiles s + length (filter (atLeastMin s)
               (case l of None \<Rightarrow> [] | Some es \<Rightarrow> seenFiles P s dir (baseOr b dir) es))
   \<and> options (snd (scanDirectory P dir b l s)) = options s"
  "totalFiles (snd (scanLoop P dir bd es s)) \<le> totalFiles s + length (seenFiles P s dir bd es)
   \<and> processedFiles (snd (scanLoop P dir bd es s))
        \<le> processedFiles s + length (filter (atLeastMin s) (seenFiles P s dir bd es))
   \<and> options (snd (scanLoop P dir bd es s)) = options s"
  "totalFiles (snd (scanEntry P dir bd e s)) \<le> totalFiles s + length (seenEntry P s dir bd e)
   \<and> processedFiles (snd (scanEntry P dir bd e s))
        \<le> processedFiles s + length (filter (atLeastMin s) (seenEntry P s dir bd e))
   \<and> options (snd (scanEntry P dir bd e s)) = options s"
proof (induction P dir b l s and P dir bd es s and P dir bd e s
       rule: scanDirectory_scanLoop_scanEntry.induct)
  case (1 P dir baseDir s)
  then show ?case by (simp add: catchScan_eq)
next
  case (2 P dir baseDir entries s)
  then show ?case by (simp add: catchScan_eq)
next
  case (3 P dir baseDir s)
  then show ?case by simp
next
  case (4 P dir baseDir entry rest s)
  obtain x y where Pair: "scanEntry P dir baseDir entry s = (x, y)"
    by (cases "scanEntry P dir baseDir entry s")
  note e = 4(1)[unfolded Pair, simplified]
  have o: "options y = options s" using e by simp
  show ?case
  proof (cases x)
    case None
    note r = 4(2)[OF Pair[symmetric] None,
               unfolded seen_cong(1)[OF o] sizes_cong(1)[OF o]]
    have L: "scanLoop P dir baseDir (entry # rest) s = scanLoop P dir baseDir rest y"
      using Pair None by simp
    show ?thesis unfolding L using e r by simp
  next
    case (Some err)
    have L: "scanLoop P dir baseDir (entry # rest) s = (x, y)"
      using Pair Some by simp
    show ?thesis unfolding L using e by simp
  qed
next
  case (5 P dir baseDir name listing s)
  show ?case
  proof (cases "shouldExclude P s (path_relative P baseDir (path_join P dir name))")
    case True
    then show ?thesis by (simp add: Let_def)
  next
    case False
    note d = 5[OF refl refl False]
    show ?thesis using False d by (cases listing) (simp_all add: Let_def)
  qed
next
  case (6 P dir baseDir name stat content s)
  show ?case
    by (cases stat; cases content)
       (simp_all add: Let_def processFile_counts processFile_options atLeastMin_def)
next
  case (7 P dir baseDir name s)
  then show ?case by simp
qed

lemma fresh_seen_le:
  "totalFiles (snd (analyze P dir listing (constructor raw)))
     \<le> length (seenBelow P (constructor raw) dir listing)"
  "processedFiles (snd (analyze P dir listing (constructor raw)))
     \<le> length (filter (atLeastMin (constructor raw)) (seenBelow P (constructor raw) dir listing))"
proof -
  let ?s1 = "(constructor raw)\<lparr>console := console (constructor raw) @ [LogScanning dir]\<rparr>"
  have o: "options ?s1 = options (constructor raw)" by simp
  have z: "totalFiles ?s1 = 0" "processedFiles ?s1 = 0"
    by (simp_all add: constructor_def)
  note S = scan_seen_le(1)[of P dir None listing ?s1,
             unfolded seen_cong(1)[OF o] sizes_cong(1)[OF o] z,
             folded seenBelow_def]
  show "totalFiles (snd (analyze P dir listing (constructor raw)))
     \<le> length (seenBelow P (constructor raw) dir listing)"
  "processedFiles (snd (analyze P dir listing (constructor raw)))
     \<le> length (filter (atLeastMin (constructor raw)) (seenBelow P (constructor raw) dir listing))"
    unfolding analyze_fields using S by simp_all
qed

subsection \<open>One more small file\<close>








subsection \<open>The \<open>--min-size\<close> argument\<close>

lemma split_eq_ne: "split_eq w \<noteq> []"
  by (induction w) (auto split: list.splits)

lemma hd_split_eq: "hd (split_eq w) = takeWhile (\<lambda>c. c \<noteq> CHR ''='') w"
  using split_eq_ne by (induction w) (auto split: list.splits)

lemma parseArg_min_size:
  "parseArg P (''--min-size='' @ v) x
     = x\<lparr>opt_minSize :=
           Some (Num (num_or (Some (parseInt P (Some (takeWhile (\<lambda>c. c \<noteq> CHR ''='') v)))) 100))\<rparr>"
proof -
  obtain p ps where s: "split_eq v = p # ps" using split_eq_ne[of v] by (cases "split_eq v") auto
  then have p: "p = takeWhile (\<lambda>c. c \<noteq> CHR ''='') v" using hd_split_eq[of v] by simp
  have "split_eq (''min-size='' @ v) = ''min-size'' # split_eq v" by simp
  then show ?thesis using s p by (simp add: parseArg_def Let_def)
qed

lemma parseArg_min_size_bare:
  "parseArg P ''--min-size'' x = x\<lparr>opt_minSize := Some (Num (num_or (Some (parseInt P None)) 100))\<rparr>"
  by (simp add: parseArg_def Let_def)

lemma mainOptions_last:
  assumes "mainOptions P [d, a] = Some opts" "\<And>x. parseArg P a x = x\<lparr>opt_minSize := Some (Num n)\<rparr>"
  shows "opt_minSize opts = Some (Num n)"
  using assms by (auto simp: mainOptions_def Let_def split: if_splits option.splits)

lemma num_or_case:
  "num_or (Some (Num (num_or (Some x) 100))) 100 = (case x of NaN \<Rightarrow> 100 | Num k \<Rightarrow> if k = 0 then 100 else k)"
  by (cases x) simp_all

section \<open>Properties of the scan\<close>

subsection \<open>A worked example\<close>

lemma example_run:
  "fst (analyze examplePlatform ''/r'' exampleListing (constructor exampleOptions)) = Inr exampleReport"
  by code_simp

lemma example_hashed:
  "map snd (hashed (snd (analyze examplePlatform ''/r'' exampleListing (constructor exampleOptions))))
     = [''abc'', ''abc'', ''xyz'', ''wxyz'', ''wxyz'', ''xyz'']"
  by code_simp

subsection \<open>Wasted bytes\<close>

text \<open>
  Claim C2. Every duplicate group of the report comes from one entry of \<open>filesByHash\<close>
  with \<open>N \<ge> 2\<close> records; its \<open>count\<close> is \<open>N\<close>, its \<open>fileSize\<close> is the size of the first
  record, and its \<open>wastedBytes\<close> is \<open>fileSize \<times> (N - 1)\<close>, which is \<open>S \<times> (N - 1)\<close> when
  the records all have size \<open>S\<close>. The report's \<open>totalWastedBytes\<close> is the sum of the
  groups' \<open>wastedBytes\<close>. This holds from any state of the instance.
\<close>

theorem wasted_bytes_per_group_and_total:
  assumes "fst (analyze P dir listing s) = Inr rep"
  shows "(\<forall>g \<in> set (duplicateGroups rep).
            \<exists>fs. (hash g, fs) \<in> set (filesByHash (snd (analyze P dir listing s)))
               \<and> files g = map relativePath fs \<and> gcount g = length fs \<and> 2 \<le> gcount g
               \<and> fileSize g = fsize (hd fs)
               \<and> wastedBytes g = fileSize g * (gcount g - 1)
               \<and> (\<forall>S. (\<forall>f \<in> set fs. fsize f = S) \<longrightarrow> wastedBytes g = S * (gcount g - 1)))
       \<and> totalWastedBytes (stats rep) = sum_list (map wastedBytes (duplicateGroups rep))"
proof -
  let ?s' = "snd (analyze P dir listing s)"
  let ?dup = "map mkGroup (filter (\<lambda>e. length (snd e) > 1) (filesByHash ?s'))"
  have groups: "duplicateGroups rep = array_sort byWasted ?dup"
    and total: "totalWastedBytes (stats rep) = sum_list (map wastedBytes ?dup)"
    using assms by (auto simp: analyze_eq Let_def)
  have "\<exists>fs. (hash g, fs) \<in> set (filesByHash ?s')
               \<and> files g = map relativePath fs \<and> gcount g = length fs \<and> 2 \<le> gcount g
               \<and> fileSize g = fsize (hd fs)
               \<and> wastedBytes g = fileSize g * (gcount g - 1)
               \<and> (\<forall>S. (\<forall>f \<in> set fs. fsize f = S) \<longrightarrow> wastedBytes g = S * (gcount g - 1))"
    if "g \<in> set (duplicateGroups rep)" for g
  proof -
    from that have "g \<in> set ?dup" by (simp add: groups set_array_sort)
    then obtain e where e: "e \<in> set (filesByHash ?s')" "1 < length (snd e)" "g = mkGroup e"
      by auto
    then have ne: "snd e \<noteq> []" by auto
    have "(hash g, snd e) \<in> set (filesByHash ?s')" using e by (simp add: mkGroup_def)
    moreover have "files g = map relativePath (snd e)" "gcount g = length (snd e)"
      "2 \<le> gcount g" "fileSize g = fsize (hd (snd e))"
      "wastedBytes g = fileSize g * (gcount g - 1)"
      using e by (simp_all add: mkGroup_def)
    moreover have "wastedBytes g = S * (gcount g - 1)" if "\<forall>f \<in> set (snd e). fsize f = S" for S
      using that e ne by (simp add: mkGroup_def)
    ultimately show ?thesis by blast
  qed
  moreover have "totalWastedBytes (stats rep) = sum_list (map wastedBytes (duplicateGroups rep))"
    by (simp add: total groups sum_array_sort)
  ultimately show ?thesis by blast
qed

theorem wasted_bytes_witness:
  "fst (analyze examplePlatform ''/r'' exampleListing (constructor exampleOptions)) = Inr exampleReport
   \<and> (\<exists>fs. (''#wxyz'', fs) \<in> set (filesByHash (snd (analyze examplePlatform ''/r'' exampleListing (constructor exampleOptions))))
          \<and> [''d.png'', ''e.png''] = map relativePath fs \<and> 2 = length fs \<and> 4 = fsize (hd fs))
   \<and> totalWastedBytes (stats exampleReport) = 4 + 3 + 3"
proof -
  note run = example_run
  let ?g = "\<lparr> hash = ''#wxyz'', gcount = 2, fileSize = 4, wastedBytes = 4,
             gextension = ''.png'', files = [''d.png'', ''e.png''] \<rparr>"
  have "?g \<in> set (duplicateGroups exampleReport)" by (simp add: exampleReport_def)
  with wasted_bytes_per_group_and_total[OF run]
  have "\<exists>fs. (hash ?g, fs) \<in> set (filesByHash (snd (analyze examplePlatform ''/r'' exampleListing (constructor exampleOptions))))
               \<and> files ?g = map relativePath fs \<and> gcount ?g = length fs \<and> 2 \<le> gcount ?g
               \<and> fileSize ?g = fsize (hd fs)"
    by blast
  moreover have "totalWastedBytes (stats exampleReport) = 4 + 3 + 3"
    using wasted_bytes_per_group_and_total[OF run] by (simp add: exampleReport_def)
  ultimately show ?thesis using run by simp
qed

subsection \<open>Exclusion\<close>

text \<open>
  Claim C3. When the path of a directory entry relative to the scan root contains a
  configured exclude pattern as a substring, the loop body leaves the instance as it was
  and raises nothing, whatever the entry is and whatever it holds: a directory is not
  descended into, a file is neither counted nor hashed. The loop over a listing gives the
  same result as over the listing without that entry. At the end of a scan by a fresh
  instance, no hashed file has a relative path that contains an exclude pattern.
\<close>

theorem excluded_entry_is_not_visited:
  "(p \<in> set (excludePatterns (options s))
      \<and> path_relative P baseDir (path_join P dir (entryName e)) = a @ p @ b
    \<longrightarrow> scanEntry P dir baseDir e s = (None, s)
        \<and> scanLoop P dir baseDir (before @ e # after) s
            = scanLoop P dir baseDir (before @ after) s)
   \<and> (\<forall>rc \<in> set (hashed (snd (analyze P root listing (constructor raw)))).
        \<forall>q \<in> set (excludePatterns (options (constructor raw))).
          \<not> (\<exists>a b. relativePath (fst rc) = a @ q @ b))"
proof -
  have local: "scanEntry P dir baseDir e s = (None, s)
        \<and> scanLoop P dir baseDir (before @ e # after) s
            = scanLoop P dir baseDir (before @ after) s"
    if pat: "p \<in> set (excludePatterns (options s))"
      and rel: "path_relative P baseDir (path_join P dir (entryName e)) = a @ p @ b"
  proof -
    have excl: "shouldExclude P s' (path_relative P baseDir (path_join P dir (entryName e)))"
      if "options s' = options s" for s'
      using pat rel that unfolding shouldExclude_iff by auto
    have step: "scanEntry P dir baseDir e s' = (None, s')" if "options s' = options s" for s'
      using excl[OF that] by (cases e) (simp_all add: Let_def)
    have "scanLoop P dir baseDir (before @ e # after) s = scanLoop P dir baseDir (before @ after) s"
    proof (cases "scanLoop P dir baseDir before s")
      case (Pair x s1)
      have "options s1 = options s" using scan_options(2)[of P dir baseDir before s] Pair by simp
      then have "scanEntry P dir baseDir e s1 = (None, s1)" by (rule step)
      then show ?thesis using Pair by (cases x) (simp_all add: scanLoop_append)
    qed
    then show ?thesis using step[of s] by simp
  qed
  let ?s' = "snd (analyze P root listing (constructor raw))"
  have "\<forall>rc \<in> set (hashed ?s'). \<not> shouldExclude P ?s' (relativePath (fst rc))"
    by (rule fresh_not_excluded)
  then have global: "\<forall>rc \<in> set (hashed ?s').
        \<forall>q \<in> set (excludePatterns (options (constructor raw))).
          \<not> (\<exists>a b. relativePath (fst rc) = a @ q @ b)"
    unfolding shouldExclude_iff analyze_options by blast
  show ?thesis using local global by blast
qed

theorem excluded_entry_witness:
  "scanEntry examplePlatform ''/r'' ''/r''
     (DirEnt ''node_modules'' (Some [FileEnt ''h.png'' (Some 3) (Some ''abc'')]))
     (constructor exampleOptions) = (None, constructor exampleOptions)
   \<and> scanLoop examplePlatform ''/r'' ''/r''
       ([FileEnt ''a.png'' (Some 3) (Some ''abc'')]
        @ DirEnt ''node_modules'' (Some [FileEnt ''h.png'' (Some 3) (Some ''abc'')])
        # [FileEnt ''d.png'' (Some 4) (Some ''wxyz'')])
       (constructor exampleOptions)
     = scanLoop examplePlatform ''/r'' ''/r''
       ([FileEnt ''a.png'' (Some 3) (Some ''abc'')] @ [FileEnt ''d.png'' (Some 4) (Some ''wxyz'')])
       (constructor exampleOptions)
   \<and> map (\<lambda>rc. relativePath (fst rc))
       (hashed (snd (analyze examplePlatform ''/r'' exampleListing (constructor exampleOptions))))
     = [''a.png'', ''sub/b.jpg'', ''sub/c.png'', ''d.png'', ''e.png'', ''f.png'']"
proof -
  have 1: "''node_modules'' \<in> set (excludePatterns (options (constructor exampleOptions)))"
    by code_simp
  have 2: "path_relative examplePlatform ''/r''
             (path_join examplePlatform ''/r''
                (entryName (DirEnt ''node_modules'' (Some [FileEnt ''h.png'' (Some 3) (Some ''abc'')]))))
           = [] @ ''node_modules'' @ []"
    by code_simp
  have 3: "map (\<lambda>rc. relativePath (fst rc))
       (hashed (snd (analyze examplePlatform ''/r'' exampleListing (constructor exampleOptions))))
     = [''a.png'', ''sub/b.jpg'', ''sub/c.png'', ''d.png'', ''e.png'', ''f.png'']"
    by code_simp
  note T = excluded_entry_is_not_visited[of "''node_modules''" "constructor exampleOptions"
             examplePlatform "''/r''" "''/r''"
             "DirEnt ''node_modules'' (Some [FileEnt ''h.png'' (Some 3) (Some ''abc'')])"
             "[]" "[]" "[FileEnt ''a.png'' (Some 3) (Some ''abc'')]"
             "[FileEnt ''d.png'' (Some 4) (Some ''wxyz'')]" "''/r''" exampleListing exampleOptions]
  show ?thesis using T 1 2 3 by blast
qed

subsection \<open>Files below the minimum size\<close>




subsection \<open>I/O failures\<close>

text \<open>
  Claim C7. \<open>analyze\<close> always returns a report, and no exception leaves \<open>scanDirectory\<close>,
  whatever \<open>readdirSync\<close>, \<open>statSync\<close> or \<open>readFileSync\<close> call fails below it. When reading
  the content of a file fails, the loop body raises nothing, \<open>filesByHash\<close> stays as it
  was, and the loop goes on with the next entry; the state differs from the one reached
  when the same file is read successfully only by the missing record and by the error
  line written when \<open>verbose\<close> is set. When reading a directory fails, the instance is
  unchanged but for the error line written when \<open>verbose\<close> is set, and the loop goes on
  with the next entry.
\<close>

theorem io_failures_never_escape:
  "(\<exists>rep. fst (analyze P dir listing s) = Inr rep)
   \<and> fst (scanDirectory P dir base listing s) = None
   \<and> (\<not> shouldExclude P s (path_relative P bd (path_join P dir name))
        \<and> hasValidExtension P s name \<and> minSize (options s) \<le> int sz \<longrightarrow>
      (let failed = scanEntry P dir bd (FileEnt name (Some sz) None) s;
           ok = snd (scanEntry P dir bd (FileEnt name (Some sz) (Some c)) s)
       in fst failed = None
          \<and> filesByHash (snd failed) = filesByHash s
          \<and> snd failed = ok\<lparr>filesByHash := filesByHash s, hashed := hashed s,
                              console := console ok
                                @ (if verbose (options s)
                                   then [ErrorReading (path_join P dir name)] else [])\<rparr>
          \<and> scanLoop P dir bd (FileEnt name (Some sz) None # rest) s
              = scanLoop P dir bd rest (snd failed)))
   \<and> (\<not> shouldExclude P s (path_relative P bd (path_join P dir name)) \<longrightarrow>
      scanEntry P dir bd (DirEnt name None) s
        = (None, if verbose (options s)
                 then s\<lparr>console := console s @ [ErrorScanning (path_join P dir name)]\<rparr>
                 else s)
      \<and> scanLoop P dir bd (DirEnt name None # rest) s
          = scanLoop P dir bd rest
              (if verbose (options s)
               then s\<lparr>console := console s @ [ErrorScanning (path_join P dir name)]\<rparr>
               else s))"
proof -
  have 1: "\<exists>rep. fst (analyze P dir listing s) = Inr rep"
    by (simp add: analyze_eq Let_def)
  have 2: "fst (scanDirectory P dir base listing s) = None"
    by (rule scanDirectory_no_exception)
  have 3: "let failed = scanEntry P dir bd (FileEnt name (Some sz) None) s;
               ok = snd (scanEntry P dir bd (FileEnt name (Some sz) (Some c)) s)
           in fst failed = None
              \<and> filesByHash (snd failed) = filesByHash s
              \<and> snd failed = ok\<lparr>filesByHash := filesByHash s, hashed := hashed s,
                              console := console ok
                                @ (if verbose (options s)
                                   then [ErrorReading (path_join P dir name)] else [])\<rparr>
              \<and> scanLoop P dir bd (FileEnt name (Some sz) None # rest) s
                  = scanLoop P dir bd rest (snd failed)"
    if "\<not> shouldExclude P s (path_relative P bd (path_join P dir name))"
       "hasValidExtension P s name" "minSize (options s) \<le> int sz"
    using that by (simp add: Let_def processFile_def getFileHash_def)
  have 4: "scanEntry P dir bd (DirEnt name None) s
        = (None, if verbose (options s)
                 then s\<lparr>console := console s @ [ErrorScanning (path_join P dir name)]\<rparr>
                 else s)
      \<and> scanLoop P dir bd (DirEnt name None # rest) s
          = scanLoop P dir bd rest
              (if verbose (options s)
               then s\<lparr>console := console s @ [ErrorScanning (path_join P dir name)]\<rparr>
               else s)"
    if "\<not> shouldExclude P s (path_relative P bd (path_join P dir name))"
    using that by (simp add: Let_def)
  show ?thesis using 1 2 3 4 by blast
qed

theorem io_failures_witness:
  "(\<exists>rep. fst (analyze examplePlatform ''/r'' exampleListing (constructor verboseOptions)) = Inr rep)
   \<and> scanLoop examplePlatform ''/r'' ''/r''
        (FileEnt ''g.png'' (Some 3) None # [FileEnt ''a.png'' (Some 3) (Some ''abc'')])
        (constructor verboseOptions)
      = scanLoop examplePlatform ''/r'' ''/r'' [FileEnt ''a.png'' (Some 3) (Some ''abc'')]
          ((constructor verboseOptions)
             \<lparr>processedFiles := 1, totalFiles := 1, console := [ErrorReading ''/r/g.png'']\<rparr>)
   \<and> scanEntry examplePlatform ''/r'' ''/r'' (DirEnt ''locked'' None) (constructor verboseOptions)
      = (None, (constructor verboseOptions)\<lparr>console := [ErrorScanning ''/r/locked'']\<rparr>)"
proof -
  let ?s = "constructor verboseOptions"
  have a: "\<not> shouldExclude examplePlatform ?s
              (path_relative examplePlatform ''/r'' (path_join examplePlatform ''/r'' ''g.png''))"
    by code_simp
  have b: "hasValidExtension examplePlatform ?s ''g.png''" by code_simp
  have c: "minSize (options ?s) \<le> int 3" by code_simp
  have d: "\<not> shouldExclude examplePlatform ?s
              (path_relative examplePlatform ''/r'' (path_join examplePlatform ''/r'' ''locked''))"
    by code_simp
  have v: "verbose (options ?s)" by code_simp
  have f: "snd (scanEntry examplePlatform ''/r'' ''/r'' (FileEnt ''g.png'' (Some 3) None) ?s)
             = ?s\<lparr>processedFiles := 1, totalFiles := 1, console := [ErrorReading ''/r/g.png'']\<rparr>"
    by code_simp
  have p: "path_join examplePlatform ''/r'' ''locked'' = ''/r/locked''" by code_simp
  have e: "console ?s = []" by code_simp
  note T = io_failures_never_escape[of examplePlatform "''/r''" exampleListing ?s None
             "''/r''" "''g.png''" 3 "''abc''" "[FileEnt ''a.png'' (Some 3) (Some ''abc'')]"]
  note U = io_failures_never_escape[of examplePlatform "''/r''" exampleListing ?s None
             "''/r''" "''locked''" 3 "''abc''" "[]"]
  have "\<exists>rep. fst (analyze examplePlatform ''/r'' exampleListing ?s) = Inr rep"
    using T by blast
  moreover have "scanLoop examplePlatform ''/r'' ''/r''
        (FileEnt ''g.png'' (Some 3) None # [FileEnt ''a.png'' (Some 3) (Some ''abc'')]) ?s
      = scanLoop examplePlatform ''/r'' ''/r'' [FileEnt ''a.png'' (Some 3) (Some ''abc'')]
          (?s\<lparr>processedFiles := 1, totalFiles := 1, console := [ErrorReading ''/r/g.png'']\<rparr>)"
    using T a b c f unfolding Let_def by metis
  moreover have "scanEntry examplePlatform ''/r'' ''/r'' (DirEnt ''locked'' None) ?s
      = (None, ?s\<lparr>console := [ErrorScanning ''/r/locked'']\<rparr>)"
    using U d v p e by simp
  ultimately show ?thesis by blast
qed

subsection \<open>The minimum size cannot be zero\<close>

text \<open>
  Claim C10. A \<open>minSize\<close> option that is absent, \<open>NaN\<close> or \<open>0\<close> becomes 100 in the
  constructor, so the effective \<open>minSize\<close> is never 0. On the command line, the value of
  \<open>--min-size=v\<close> is what \<open>parseInt\<close> returns for the text of \<open>v\<close> before its first
  \<open>=\<close> (for \<open>undefined\<close> when the argument is \<open>--min-size\<close> alone), and 100 when that is
  \<open>NaN\<close> or 0. With \<open>--min-size=0\<close>, \<open>parseInt\<close> reading \<open>0\<close> as 0, the minimum is
  100: no file hashed by a scan and no duplicate group is smaller than 100 bytes, and a
  file of 1 to 99 bytes that is not excluded and has an allowed extension is counted in
  \<open>totalFiles\<close> and not hashed.
\<close>

theorem falsy_minSize_becomes_100:
  "(opt_minSize raw = None \<or> opt_minSize raw = Some NaN \<or> opt_minSize raw = Some (Num 0)
      \<longrightarrow> minSize (options (constructor raw)) = 100)
   \<and> minSize (options (constructor raw)) \<noteq> 0
   \<and> (mainOptions P [d, ''--min-size='' @ v] = Some opts
      \<longrightarrow> minSize (options (constructor opts))
            = (case parseInt P (Some (takeWhile (\<lambda>c. c \<noteq> CHR ''='') v)) of
                 NaN \<Rightarrow> 100
               | Num k \<Rightarrow> if k = 0 then 100 else k))
   \<and> (mainOptions P [d, ''--min-size''] = Some opts
      \<longrightarrow> minSize (options (constructor opts))
            = (case parseInt P None of NaN \<Rightarrow> 100 | Num k \<Rightarrow> if k = 0 then 100 else k))
   \<and> (parseInt P (Some ''0'') = Num 0 \<and> mainOptions P [d, ''--min-size=0''] = Some opts
      \<longrightarrow> minSize (options (constructor opts)) = 100
          \<and> (\<forall>rc \<in> set (hashed (snd (analyze P dir listing (constructor opts)))).
                100 \<le> fsize (fst rc))
          \<and> (\<forall>rep. fst (analyze P dir listing (constructor opts)) = Inr rep
                \<longrightarrow> (\<forall>g \<in> set (duplicateGroups rep). 100 \<le> fileSize g))
          \<and> (options s = options (constructor opts) \<and> 1 \<le> sz \<and> sz \<le> 99
                \<and> \<not> shouldExclude P s (path_relative P bd (path_join P dir name))
                \<and> hasValidExtension P s name
              \<longrightarrow> scanEntry P dir bd (FileEnt name (Some sz) content) s
                    = (None, s\<lparr>totalFiles := totalFiles s + 1\<rparr>)))"
proof -
  have 1: "minSize (options (constructor raw)) = 100"
    if "opt_minSize raw = None \<or> opt_minSize raw = Some NaN \<or> opt_minSize raw = Some (Num 0)"
    using that by (auto simp: constructor_def)
  have 2: "minSize (options (constructor raw)) \<noteq> 0"
  proof (cases "opt_minSize raw")
    case None
    then show ?thesis by (simp add: constructor_def)
  next
    case (Some x)
    then show ?thesis by (cases x) (simp_all add: constructor_def)
  qed
  have 3: "minSize (options (constructor opts))
            = (case parseInt P (Some (takeWhile (\<lambda>c. c \<noteq> CHR ''='') v)) of
                 NaN \<Rightarrow> 100
               | Num k \<Rightarrow> if k = 0 then 100 else k)"
    if m: "mainOptions P [d, ''--min-size='' @ v] = Some opts" for v opts
  proof -
    have o: "opt_minSize opts
            = Some (Num (num_or (Some (parseInt P (Some (takeWhile (\<lambda>c. c \<noteq> CHR ''='') v)))) 100))"
      using m parseArg_min_size by (rule mainOptions_last)
    have c: "minSize (options (constructor opts)) = num_or (opt_minSize opts) 100"
      by (simp add: constructor_def)
    show ?thesis unfolding c o by (rule num_or_case)
  qed
  have 4: "minSize (options (constructor opts))
            = (case parseInt P None of NaN \<Rightarrow> 100 | Num k \<Rightarrow> if k = 0 then 100 else k)"
    if m: "mainOptions P [d, ''--min-size''] = Some opts"
  proof -
    have o: "opt_minSize opts = Some (Num (num_or (Some (parseInt P None)) 100))"
      using m parseArg_min_size_bare by (rule mainOptions_last)
    have c: "minSize (options (constructor opts)) = num_or (opt_minSize opts) 100"
      by (simp add: constructor_def)
    show ?thesis unfolding c o by (rule num_or_case)
  qed
  have 5: "minSize (options (constructor opts)) = 100
          \<and> (\<forall>rc \<in> set (hashed (snd (analyze P dir listing (constructor opts)))).
                100 \<le> fsize (fst rc))
          \<and> (\<forall>rep. fst (analyze P dir listing (constructor opts)) = Inr rep
                \<longrightarrow> (\<forall>g \<in> set (duplicateGroups rep). 100 \<le> fileSize g))
          \<and> (options s = options (constructor opts) \<and> 1 \<le> sz \<and> sz \<le> 99
                \<and> \<not> shouldExclude P s (path_relative P bd (path_join P dir name))
                \<and> hasValidExtension P s name
              \<longrightarrow> scanEntry P dir bd (FileEnt name (Some sz) content) s
                    = (None, s\<lparr>totalFiles := totalFiles s + 1\<rparr>))"
    if z: "parseInt P (Some ''0'') = Num 0" and m: "mainOptions P [d, ''--min-size=0''] = Some opts"
  proof -
    have "mainOptions P [d, ''--min-size='' @ ''0''] = Some opts" using m by simp
    from 3[OF this] have a: "minSize (options (constructor opts)) = 100" using z by simp
    note sz = fresh_all_sizes[of P dir listing opts, unfolded a]
    have b: "\<forall>rc \<in> set (hashed (snd (analyze P dir listing (constructor opts)))).
                100 \<le> fsize (fst rc)"
      using sz(1) by simp
    have c: "\<forall>g \<in> set (duplicateGroups rep). 100 \<le> fileSize g"
      if "fst (analyze P dir listing (constructor opts)) = Inr rep" for rep
      using sz(3)[OF that] by simp
    have e: "scanEntry P dir bd (FileEnt name (Some sz) content) s
                    = (None, s\<lparr>totalFiles := totalFiles s + 1\<rparr>)"
      if "options s = options (constructor opts)" "1 \<le> sz" "sz \<le> 99"
         "\<not> shouldExclude P s (path_relative P bd (path_join P dir name))"
         "hasValidExtension P s name"
      using that a by (simp add: Let_def)
    show ?thesis using a b c e by blast
  qed
  show ?thesis using 1 2 3 4 5 by blast
qed

theorem falsy_minSize_witness:
  "minSize (options (constructor emptyOptions)) = 100
   \<and> minSize (options (constructor (emptyOptions\<lparr>opt_minSize := Some (Num 0)\<rparr>))) = 100
   \<and> parseInt examplePlatform (Some ''0'') = Num 0
   \<and> parseInt examplePlatform (Some ''abc'') = NaN
   \<and> mainOptions examplePlatform [''.'', ''--min-size=0'']
       = Some (emptyOptions\<lparr>opt_minSize := Some (Num 100), opt_exclude := Some defaultExcludes\<rparr>)
   \<and> minSize (options (constructor
        (emptyOptions\<lparr>opt_minSize := Some (Num 100), opt_exclude := Some defaultExcludes\<rparr>))) = 100
   \<and> mainOptions examplePlatform [''.'', ''--min-size='' @ ''abc'']
       = Some (emptyOptions\<lparr>opt_minSize := Some (Num 100), opt_exclude := Some defaultExcludes\<rparr>)
   \<and> mainOptions examplePlatform [''.'', ''--min-size'']
       = Some (emptyOptions\<lparr>opt_minSize := Some (Num 100), opt_exclude := Some defaultExcludes\<rparr>)
   \<and> hashed (snd (analyze examplePlatform ''/r'' tinyListing
        (constructor (emptyOptions\<lparr>opt_minSize := Some (Num 100), opt_exclude := Some defaultExcludes\<rparr>))))
       = []
   \<and> list_all (\<lambda>rc. 100 \<le> fsize (fst rc))
        (hashed (snd (analyze examplePlatform ''/r'' tinyListing
           (constructor (emptyOptions\<lparr>opt_minSize := Some (Num 100), opt_exclude := Some defaultExcludes\<rparr>)))))
   \<and> scanEntry examplePlatform ''/r'' ''/r''
        (FileEnt ''tiny.png'' (Some 50) (Some (replicate 50 (CHR ''x''))))
        (constructor (emptyOptions\<lparr>opt_minSize := Some (Num 100), opt_exclude := Some defaultExcludes\<rparr>))
       = (None, (constructor (emptyOptions\<lparr>opt_minSize := Some (Num 100), opt_exclude := Some defaultExcludes\<rparr>))
                  \<lparr>totalFiles := totalFiles (constructor (emptyOptions\<lparr>opt_minSize := Some (Num 100), opt_exclude := Some defaultExcludes\<rparr>)) + 1\<rparr>)"
proof -
  let ?o = "emptyOptions\<lparr>opt_minSize := Some (Num 100), opt_exclude := Some defaultExcludes\<rparr>"
  let ?s = "constructor ?o"
  have a: "opt_minSize emptyOptions = None" by code_simp
  have b: "opt_minSize (emptyOptions\<lparr>opt_minSize := Some (Num 0)\<rparr>) = Some (Num 0)" by code_simp
  have p0: "parseInt examplePlatform (Some ''0'') = Num 0" by code_simp
  have pa: "parseInt examplePlatform (Some ''abc'') = NaN" by code_simp
  have m: "mainOptions examplePlatform [''.'', ''--min-size=0''] = Some ?o" by code_simp
  have n: "mainOptions examplePlatform [''.'', ''--min-size='' @ ''abc''] = Some ?o" by code_simp
  have u: "mainOptions examplePlatform [''.'', ''--min-size''] = Some ?o" by code_simp
  have pu: "parseInt examplePlatform None = NaN" by code_simp
  have t: "takeWhile (\<lambda>c. c \<noteq> CHR ''='') ''abc'' = ''abc''" by simp
  have h: "hashed (snd (analyze examplePlatform ''/r'' tinyListing ?s)) = []" by code_simp
  have x: "\<not> shouldExclude examplePlatform ?s
              (path_relative examplePlatform ''/r'' (path_join examplePlatform ''/r'' ''tiny.png''))"
    by code_simp
  have y: "hasValidExtension examplePlatform ?s ''tiny.png''" by code_simp
  have z: "(1::nat) \<le> 50" "(50::nat) \<le> 99" by simp_all
  note A = falsy_minSize_becomes_100[of emptyOptions examplePlatform "''.''" "''abc''" ?o
             "''/r''" tinyListing ?s 50 "''/r''" "''tiny.png''" "Some (replicate 50 (CHR ''x''))"]
  note B = falsy_minSize_becomes_100[of "emptyOptions\<lparr>opt_minSize := Some (Num 0)\<rparr>"
             examplePlatform "''.''" "''abc''" ?o
             "''/r''" tinyListing ?s 50 "''/r''" "''tiny.png''" "Some (replicate 50 (CHR ''x''))"]
  have "minSize (options (constructor emptyOptions)) = 100" using A a by blast
  moreover have "minSize (options (constructor (emptyOptions\<lparr>opt_minSize := Some (Num 0)\<rparr>))) = 100"
    using B b by blast
  moreover have "minSize (options ?s) = 100" using A n pa t by simp
  moreover have "minSize (options ?s) = (case parseInt examplePlatform None of
                                           NaN \<Rightarrow> 100 | Num k \<Rightarrow> if k = 0 then 100 else k)"
    using A u by blast
  moreover have "\<forall>rc \<in> set (hashed (snd (analyze examplePlatform ''/r'' tinyListing ?s))).
                   100 \<le> fsize (fst rc)"
    using A m p0 by blast
  then have "list_all (\<lambda>rc. 100 \<le> fsize (fst rc))
               (hashed (snd (analyze examplePlatform ''/r'' tinyListing ?s)))"
    by (simp only: list_all_iff)
  moreover have "scanEntry examplePlatform ''/r'' ''/r''
        (FileEnt ''tiny.png'' (Some 50) (Some (replicate 50 (CHR ''x'')))) ?s
       = (None, ?s\<lparr>totalFiles := totalFiles ?s + 1\<rparr>)"
    using A m p0 x y z by blast
  ultimately show ?thesis using m n u p0 pa h by blast
qed

subsection \<open>Grouping by content\<close>

text \<open>
  Which files enter the history: a file that is not excluded, has an allowed extension and
  at least the minimum size, and whose content \<open>c\<close> is read, is recorded with \<open>c\<close> and
  filed in the Map under the digest of \<open>c\<close>.
\<close>

lemma hashed_file_step:
  assumes "\<not> shouldExclude P s (path_relative P bd (path_join P dir name))"
      and "hasValidExtension P s name"
      and "minSize (options s) \<le> int sz"
      and "md5 P c \<noteq> []"
  shows "hashed (snd (scanEntry P dir bd (FileEnt name (Some sz) (Some c)) s))
           = hashed s
             @ [(\<lparr> path = path_join P dir name,
                   relativePath = path_relative P bd (path_join P dir name),
                   fsize = sz,
                   extension = toLowerCase (extname P (path_join P dir name)) \<rparr>, c)]"
    and "filesByHash (snd (scanEntry P dir bd (FileEnt name (Some sz) (Some c)) s))
           = pushRecord (md5 P c)
               \<lparr> path = path_join P dir name,
                 relativePath = path_relative P bd (path_join P dir name),
                 fsize = sz,
                 extension = toLowerCase (extname P (path_join P dir name)) \<rparr>
               (filesByHash s)"
  using assms by (simp_all add: Let_def processFile_def getFileHash_def)

text \<open>
  Claim C1. Take one scan by a fresh instance, and the files it hashed (the history
  \<open>hashed\<close>: the files that passed the exclusion, extension and size filters and whose
  content was read and digested), and suppose the digest is injective on their contents.
  Two of these files with the same content lie in one duplicate group, whose member list
  is the list of all hashed files with that content. The member list of every duplicate
  group is the list of all hashed files with one content, so a group never mixes two
  contents; when no two hashed files have the same relative path, two files with different
  contents are never both named by one group.
\<close>

theorem identical_content_same_group:
  fixes P dir listing raw
  defines "tr \<equiv> hashed (snd (analyze P dir listing (constructor raw)))"
  assumes run: "fst (analyze P dir listing (constructor raw)) = Inr rep"
      and inj: "inj_on (md5 P) (snd ` set tr)"
  shows "(\<forall>i j. i < j \<and> j < length tr \<and> snd (tr ! i) = snd (tr ! j)
            \<longrightarrow> (\<exists>g \<in> set (duplicateGroups rep).
                   files g = map relativePath (withContent (snd (tr ! i)) tr)
                   \<and> relativePath (fst (tr ! i)) \<in> set (files g)
                   \<and> relativePath (fst (tr ! j)) \<in> set (files g)))
       \<and> (\<forall>g \<in> set (duplicateGroups rep).
            \<exists>c. files g = map relativePath (withContent c tr))
       \<and> (distinct (map (\<lambda>rc. relativePath (fst rc)) tr)
          \<longrightarrow> (\<forall>i j. i < length tr \<and> j < length tr \<and> snd (tr ! i) \<noteq> snd (tr ! j)
                 \<longrightarrow> \<not> (\<exists>g \<in> set (duplicateGroups rep).
                        relativePath (fst (tr ! i)) \<in> set (files g)
                        \<and> relativePath (fst (tr ! j)) \<in> set (files g))))"
proof -
  have "duplicateGroups rep
          = array_sort byWasted (map mkGroup (filter (\<lambda>e. length (snd e) > 1) (replay P tr)))"
    using fresh_groups[OF run] unfolding tr_def .
  then have "set (duplicateGroups rep)
          = set (map mkGroup (filter (\<lambda>e. length (snd e) > 1) (replay P tr)))"
    by (simp only: set_array_sort)
  then have groups: "set (duplicateGroups rep)
                  = mkGroup ` {e \<in> set (replay P tr). length (snd e) > 1}"
    by simp
  have same: "\<exists>g \<in> set (duplicateGroups rep).
                files g = map relativePath (withContent (snd (tr ! i)) tr)
                \<and> relativePath (fst (tr ! i)) \<in> set (files g)
                \<and> relativePath (fst (tr ! j)) \<in> set (files g)"
    if ij: "i < j" "j < length tr" "snd (tr ! i) = snd (tr ! j)" for i j
  proof -
    let ?c = "snd (tr ! i)"
    have i: "i < length tr" using ij(1,2) by simp
    have mem: "tr ! i \<in> set tr" "tr ! j \<in> set tr" using i ij(2) by simp_all
    then have c: "?c \<in> snd ` set tr" by blast
    have "2 \<le> length (filter (\<lambda>rc. snd rc = ?c) tr)"
      by (rule filter_two[OF ij(1) ij(2)]) (rule refl, rule ij(3)[symmetric])
    then have two: "2 \<le> length (withContent ?c tr)" by (simp add: withContent_def)
    have b: "bucket P (md5 P ?c) tr = withContent ?c tr"
      using inj c by (rule bucket_withContent)
    have ne: "withContent ?c tr \<noteq> []" using two by auto
    have "map_of (replay P tr) (md5 P ?c) = Some (withContent ?c tr)"
      using ne by (simp add: map_of_replay b)
    then have "(md5 P ?c, withContent ?c tr) \<in> set (replay P tr)" by (rule map_of_SomeD)
    then have g: "mkGroup (md5 P ?c, withContent ?c tr) \<in> set (duplicateGroups rep)"
      using two unfolding groups by (intro imageI) simp
    have f: "files (mkGroup (md5 P ?c, withContent ?c tr)) = map relativePath (withContent ?c tr)"
      by (simp add: mkGroup_def)
    have "tr ! i \<in> {rc \<in> set tr. snd rc = ?c}"
      by (rule CollectI, rule conjI, rule mem(1), rule refl)
    then have mi: "fst (tr ! i) \<in> set (withContent ?c tr)"
      unfolding withContent_def set_map set_filter by (rule imageI)
    have "tr ! j \<in> {rc \<in> set tr. snd rc = ?c}"
      by (rule CollectI, rule conjI, rule mem(2), rule ij(3)[symmetric])
    then have mj: "fst (tr ! j) \<in> set (withContent ?c tr)"
      unfolding withContent_def set_map set_filter by (rule imageI)
    note mi mj
    then have "relativePath (fst (tr ! i)) \<in> set (map relativePath (withContent ?c tr))"
      "relativePath (fst (tr ! j)) \<in> set (map relativePath (withContent ?c tr))"
      by simp_all
    then show ?thesis using g f by metis
  qed
  have cls: "\<exists>c. files g = map relativePath (withContent c tr)"
    if "g \<in> set (duplicateGroups rep)" for g
  proof -
    from that obtain e where e0: "e \<in> set (replay P tr)" "g = mkGroup e"
      unfolding groups by blast
    obtain h fs where hf: "e = (h, fs)" by (cases e)
    have e: "(h, fs) \<in> set (replay P tr)" "g = mkGroup (h, fs)" using e0 hf by simp_all
    have fs: "fs = bucket P h tr" "fs \<noteq> []"
      using replay_entry[OF e(1)] by (rule conjunct1, rule conjunct2)
    then have "bucket P h tr \<noteq> []" by metis
    then have "filter (\<lambda>rc. md5 P (snd rc) = h) tr \<noteq> []" by (simp add: bucket_def)
    then obtain rc where rc: "rc \<in> set tr" "md5 P (snd rc) = h"
      by (auto simp: filter_empty_conv)
    have "snd rc \<in> snd ` set tr" using rc(1) by blast
    then have "bucket P (md5 P (snd rc)) tr = withContent (snd rc) tr"
      using inj by (intro bucket_withContent)
    then have "fs = withContent (snd rc) tr" using fs(1) rc(2) by simp
    then have "files g = map relativePath (withContent (snd rc) tr)"
      using e(2) by (simp add: mkGroup_def)
    then show ?thesis by blast
  qed
  have differ: "\<not> (\<exists>g \<in> set (duplicateGroups rep).
                     relativePath (fst (tr ! i)) \<in> set (files g)
                     \<and> relativePath (fst (tr ! j)) \<in> set (files g))"
    if d: "distinct (map (\<lambda>rc. relativePath (fst rc)) tr)"
      and ij: "i < length tr" "j < length tr" "snd (tr ! i) \<noteq> snd (tr ! j)" for i j
  proof
    assume "\<exists>g \<in> set (duplicateGroups rep).
              relativePath (fst (tr ! i)) \<in> set (files g)
              \<and> relativePath (fst (tr ! j)) \<in> set (files g)"
    then obtain g where g: "g \<in> set (duplicateGroups rep)"
      "relativePath (fst (tr ! i)) \<in> set (files g)" "relativePath (fst (tr ! j)) \<in> set (files g)"
      by blast
    from cls[OF g(1)] obtain c where c: "files g = map relativePath (withContent c tr)" by blast
    have inj_rel: "inj_on (\<lambda>rc. relativePath (fst rc)) (set tr)"
      using d by (simp add: distinct_map)
    have content: "snd (tr ! k) = c"
      if k: "k < length tr" "relativePath (fst (tr ! k)) \<in> set (files g)" for k
    proof -
      from k(2) have "relativePath (fst (tr ! k))
                        \<in> (\<lambda>rc. relativePath (fst rc)) ` {rc \<in> set tr. snd rc = c}"
        unfolding c withContent_def by (simp add: image_image)
      then obtain rc where rc: "rc \<in> set tr" "snd rc = c"
        "relativePath (fst rc) = relativePath (fst (tr ! k))"
        by auto
      have "tr ! k \<in> set tr" using k(1) by simp
      then have "rc = tr ! k" using inj_rel rc(1,3) by (meson inj_onD)
      then show ?thesis using rc(2) by simp
    qed
    from content[OF ij(1) g(2)] content[OF ij(2) g(3)] ij(3) show False by metis
  qed
  have 1: "\<forall>i j. i < j \<and> j < length tr \<and> snd (tr ! i) = snd (tr ! j)
            \<longrightarrow> (\<exists>g \<in> set (duplicateGroups rep).
                   files g = map relativePath (withContent (snd (tr ! i)) tr)
                   \<and> relativePath (fst (tr ! i)) \<in> set (files g)
                   \<and> relativePath (fst (tr ! j)) \<in> set (files g))"
    using same by (intro allI impI) (elim conjE, assumption+)
  have 2: "\<forall>g \<in> set (duplicateGroups rep).
            \<exists>c. files g = map relativePath (withContent c tr)"
    using cls by blast
  have 3: "distinct (map (\<lambda>rc. relativePath (fst rc)) tr)
          \<longrightarrow> (\<forall>i j. i < length tr \<and> j < length tr \<and> snd (tr ! i) \<noteq> snd (tr ! j)
                 \<longrightarrow> \<not> (\<exists>g \<in> set (duplicateGroups rep).
                        relativePath (fst (tr ! i)) \<in> set (files g)
                        \<and> relativePath (fst (tr ! j)) \<in> set (files g)))"
    using differ by blast
  from 1 2 3 show ?thesis by (intro conjI)
qed

theorem identical_content_witness:
  "fst (analyze examplePlatform ''/r'' exampleListing (constructor exampleOptions)) = Inr exampleReport
   \<and> inj_on (md5 examplePlatform)
        (snd ` set (hashed (snd (analyze examplePlatform ''/r'' exampleListing (constructor exampleOptions)))))
   \<and> (\<exists>g \<in> set (duplicateGroups exampleReport).
         files g = map relativePath (withContent ''abc''
                     (hashed (snd (analyze examplePlatform ''/r'' exampleListing (constructor exampleOptions)))))
         \<and> ''a.png'' \<in> set (files g) \<and> ''sub/b.jpg'' \<in> set (files g))"
proof -
  let ?tr = "hashed (snd (analyze examplePlatform ''/r'' exampleListing (constructor exampleOptions)))"
  note run = example_run
  have "inj (md5 examplePlatform)" by (simp add: examplePlatform_def inj_def)
  then have inj: "inj_on (md5 examplePlatform) (snd ` set ?tr)" by (rule inj_on_subset) simp
  have len: "(0::nat) < 1 \<and> 1 < length ?tr \<and> snd (?tr ! 0) = snd (?tr ! 1)" by code_simp
  have c: "snd (?tr ! 0) = ''abc''" by code_simp
  have p0: "relativePath (fst (?tr ! 0)) = ''a.png''" by code_simp
  have p1: "relativePath (fst (?tr ! 1)) = ''sub/b.jpg''" by code_simp
  from identical_content_same_group[OF run inj] len
  have "\<exists>g \<in> set (duplicateGroups exampleReport).
                   files g = map relativePath (withContent (snd (?tr ! 0)) ?tr)
                   \<and> relativePath (fst (?tr ! 0)) \<in> set (files g)
                   \<and> relativePath (fst (?tr ! 1)) \<in> set (files g)"
    by blast
  then have "\<exists>g \<in> set (duplicateGroups exampleReport).
         files g = map relativePath (withContent ''abc'' ?tr)
         \<and> ''a.png'' \<in> set (files g) \<and> ''sub/b.jpg'' \<in> set (files g)"
    unfolding c p0 p1 .
  then show ?thesis using run inj by blast
qed

subsection \<open>Order of the duplicate groups\<close>

text \<open>
  Claim C8. In the report of a fresh instance the duplicate groups are in descending order
  of \<open>wastedBytes\<close>, and of two groups with equal \<open>wastedBytes\<close> the one whose first file
  was hashed earlier in the walk comes first. \<open>firstSeen\<close> of a group's digest is the
  position in the walk of the group's first member.
\<close>

theorem groups_sorted_by_waste_then_discovery:
  fixes P dir listing raw
  defines "tr \<equiv> hashed (snd (analyze P dir listing (constructor raw)))"
  assumes run: "fst (analyze P dir listing (constructor raw)) = Inr rep"
  shows "sorted_wrt (\<lambda>a b. wastedBytes a \<ge> wastedBytes b) (duplicateGroups rep)
       \<and> sorted_wrt (\<lambda>a b. wastedBytes a = wastedBytes b
                          \<longrightarrow> firstSeen P (hash a) tr < firstSeen P (hash b) tr)
           (duplicateGroups rep)
       \<and> (\<forall>g \<in> set (duplicateGroups rep).
            firstSeen P (hash g) tr < length tr
            \<and> md5 P (snd (tr ! firstSeen P (hash g) tr)) = hash g
            \<and> hd (files g) = relativePath (fst (tr ! firstSeen P (hash g) tr)))"
proof -
  let ?R = "\<lambda>a b. firstSeen P (hash a) tr < firstSeen P (hash b) tr"
  let ?big = "filter (\<lambda>e. length (snd e) > 1) (replay P tr)"
  have groups: "duplicateGroups rep = array_sort byWasted (map mkGroup ?big)"
    using fresh_groups[OF run] unfolding tr_def .
  have "sorted_wrt (\<lambda>e1 e2. firstSeen P (fst e1) tr < firstSeen P (fst e2) tr) (replay P tr)"
    using replay_order[of P tr] by (simp add: sorted_wrt_map)
  then have "sorted_wrt (\<lambda>e1 e2. firstSeen P (fst e1) tr < firstSeen P (fst e2) tr) ?big"
    by (rule sorted_wrt_filter)
  then have "sorted_wrt ?R (map mkGroup ?big)"
    by (simp add: sorted_wrt_map mkGroup_def)
  then have ranked: "sorted_wrt (ranked ?R) (duplicateGroups rep)"
    unfolding groups by (rule sorted_array_sort)
  have 1: "sorted_wrt (\<lambda>a b. wastedBytes a \<ge> wastedBytes b) (duplicateGroups rep)"
    by (rule sorted_wrt_mono_rel[OF _ ranked]) (auto simp: ranked_def)
  have 2: "sorted_wrt (\<lambda>a b. wastedBytes a = wastedBytes b \<longrightarrow> ?R a b) (duplicateGroups rep)"
    by (rule sorted_wrt_mono_rel[OF _ ranked]) (auto simp: ranked_def)
  have 3: "firstSeen P (hash g) tr < length tr
            \<and> md5 P (snd (tr ! firstSeen P (hash g) tr)) = hash g
            \<and> hd (files g) = relativePath (fst (tr ! firstSeen P (hash g) tr))"
    if "g \<in> set (duplicateGroups rep)" for g
  proof -
    from that obtain e where e0: "e \<in> set (replay P tr)" "g = mkGroup e"
      unfolding groups set_array_sort by auto
    obtain h fs where hf: "e = (h, fs)" by (cases e)
    have e: "(h, fs) \<in> set (replay P tr)" "g = mkGroup (h, fs)" using e0 hf by simp_all
    have fs: "fs = bucket P h tr" "fs \<noteq> []"
      using replay_entry[OF e(1)] by (rule conjunct1, rule conjunct2)
    then have ne: "bucket P h tr \<noteq> []" by metis
    have a: "firstSeen P h tr < length tr" "hd (bucket P h tr) = fst (tr ! firstSeen P h tr)"
      using firstSeen_bucket[OF ne] by (rule conjunct1, rule conjunct2)
    have "\<not> (md5 P (snd (tr ! firstSeen P h tr)) \<noteq> h)"
      using a(1) unfolding firstSeen_def by (rule nth_length_takeWhile)
    then have b: "md5 P (snd (tr ! firstSeen P h tr)) = h" by simp
    have "hd (files g) = relativePath (hd fs)"
      using fs(2) by (simp add: e(2) mkGroup_def hd_map)
    then have c: "hd (files g) = relativePath (fst (tr ! firstSeen P h tr))"
      using a(2) fs(1) by metis
    have "hash g = h" by (simp add: e(2) mkGroup_def)
    then show ?thesis using a(1) b c by metis
  qed
  from 1 2 3 show ?thesis by blast
qed

theorem groups_sorted_witness:
  "fst (analyze examplePlatform ''/r'' exampleListing (constructor exampleOptions)) = Inr exampleReport
   \<and> map wastedBytes (duplicateGroups exampleReport) = [4, 3, 3]
   \<and> map (\<lambda>g. firstSeen examplePlatform (hash g)
            (hashed (snd (analyze examplePlatform ''/r'' exampleListing (constructor exampleOptions)))))
       (duplicateGroups exampleReport) = [3, 0, 2]
   \<and> sorted_wrt (\<lambda>a b. wastedBytes a \<ge> wastedBytes b) (duplicateGroups exampleReport)"
proof -
  note run = example_run
  have a: "map wastedBytes (duplicateGroups exampleReport) = [4, 3, 3]" by code_simp
  have b: "map (\<lambda>g. firstSeen examplePlatform (hash g)
            (hashed (snd (analyze examplePlatform ''/r'' exampleListing (constructor exampleOptions)))))
       (duplicateGroups exampleReport) = [3, 0, 2]" by code_simp
  show ?thesis using groups_sorted_by_waste_then_discovery[OF run] run a b by blast
qed

subsection \<open>What the processed counter counts\<close>




subsection \<open>Small files are counted as scanned\<close>

text \<open>
  Claim C5, as the code has it. The claim says that a file smaller than \<open>minSize\<close> is not
  counted as scanned. The code counts it: \<open>totalFiles\<close> is incremented before the size
  is looked at. Two 50-byte files under the default minimum of 100 give
  \<open>totalFilesScanned = 2\<close>.
\<close>

theorem small_file_scanned_counterexample:
  "fst (analyze examplePlatform ''/r'' tinyListing (constructor emptyOptions)) = Inr tinyReport
   \<and> minSize (options (constructor emptyOptions)) = 100
   \<and> totalFilesScanned (stats tinyReport) = 2
   \<and> totalFilesScanned (stats tinyReport) \<noteq> 0"
  by code_simp

text \<open>
  Claim C5, amended. A file smaller than \<open>minSize\<close> is never hashed: at the end of a
  scan every hashed file, every record of \<open>filesByHash\<close> and every duplicate group has a
  size of at least \<open>minSize\<close>; and \<open>totalFilesScanned\<close> and \<open>totalFilesProcessed\<close> are
  at most the number of files seen and the number of files seen of at least \<open>minSize\<close>.
  When \<open>statSync\<close> fails on none of the files seen, \<open>totalFilesScanned\<close> is the number
  of all files seen (not excluded, allowed extension), whatever their size, and
  \<open>totalFilesProcessed\<close> is
  the number of those of at least \<open>minSize\<close>: a small file is counted as scanned and is
  not counted as processed, so the two statistics differ by the number of small files
  seen. The hashed files are then the files seen that are large enough and whose content
  is read and digested, in the order of the walk.
\<close>

theorem small_file_not_hashed_but_scanned:
  "(fst (analyze P dir listing (constructor raw)) = Inr rep \<longrightarrow>
      (\<forall>rc \<in> set (hashed (snd (analyze P dir listing (constructor raw)))).
          minSize (options (constructor raw)) \<le> int (fsize (fst rc)))
      \<and> (\<forall>e \<in> set (filesByHash (snd (analyze P dir listing (constructor raw)))).
           \<forall>f \<in> set (snd e). minSize (options (constructor raw)) \<le> int (fsize f))
      \<and> (\<forall>g \<in> set (duplicateGroups rep). minSize (options (constructor raw)) \<le> int (fileSize g))
      \<and> totalFilesScanned (stats rep) \<le> length (seenBelow P (constructor raw) dir listing)
      \<and> totalFilesProcessed (stats rep)
          \<le> length (filter (atLeastMin (constructor raw)) (seenBelow P (constructor raw) dir listing)))
   \<and> (list_all (\<lambda>f. seenSize f \<noteq> None) (seenBelow P (constructor raw) dir listing)
        \<and> fst (analyze P dir listing (constructor raw)) = Inr rep \<longrightarrow>
        totalFilesScanned (stats rep) = length (seenBelow P (constructor raw) dir listing)
      \<and> totalFilesProcessed (stats rep)
          = length (filter (atLeastMin (constructor raw)) (seenBelow P (constructor raw) dir listing))
      \<and> totalFilesScanned (stats rep)
          = totalFilesProcessed (stats rep)
            + length (filter (belowMin (constructor raw)) (seenBelow P (constructor raw) dir listing))
      \<and> hashed (snd (analyze P dir listing (constructor raw)))
          = concat (map (hashedOf P (constructor raw)) (seenBelow P (constructor raw) dir listing)))"
proof -
  let ?V = "seenBelow P (constructor raw) dir listing"
  note sz = fresh_all_sizes[of P dir listing raw]
  have le: "totalFilesScanned (stats rep) \<le> length ?V
      \<and> totalFilesProcessed (stats rep) \<le> length (filter (atLeastMin (constructor raw)) ?V)"
    if run: "fst (analyze P dir listing (constructor raw)) = Inr rep"
    unfolding fresh_report(1,2)[OF run] using fresh_seen_le[of P dir listing raw] by blast
  have c: "totalFilesScanned (stats rep) = length ?V
      \<and> totalFilesProcessed (stats rep) = length (filter (atLeastMin (constructor raw)) ?V)
      \<and> totalFilesScanned (stats rep)
          = totalFilesProcessed (stats rep) + length (filter (belowMin (constructor raw)) ?V)
      \<and> hashed (snd (analyze P dir listing (constructor raw)))
          = concat (map (hashedOf P (constructor raw)) ?V)"
    if ok: "list_all (\<lambda>f. seenSize f \<noteq> None) ?V"
      and run: "fst (analyze P dir listing (constructor raw)) = Inr rep"
  proof -
    note F = fresh_seen[OF ok] and R = fresh_report(1,2)[OF run]
    have 1: "totalFilesScanned (stats rep) = length ?V" unfolding R by (rule F(1))
    have 2: "totalFilesProcessed (stats rep) = length (filter (atLeastMin (constructor raw)) ?V)"
      unfolding R by (rule F(2))
    have 3: "totalFilesScanned (stats rep)
          = totalFilesProcessed (stats rep) + length (filter (belowMin (constructor raw)) ?V)"
      unfolding 1 2 using ok by (rule split_by_size)
    show ?thesis using 1 2 3 F(3) by blast
  qed
  show ?thesis using sz le c by blast
qed

theorem small_file_not_hashed_witness:
  "fst (analyze examplePlatform ''/r'' exampleListing (constructor exampleOptions)) = Inr exampleReport
   \<and> minSize (options (constructor exampleOptions)) = 2
   \<and> map (\<lambda>rc. fsize (fst rc))
        (hashed (snd (analyze examplePlatform ''/r'' exampleListing (constructor exampleOptions))))
       = [3, 3, 3, 4, 4, 3]
   \<and> list_all (\<lambda>g. minSize (options (constructor exampleOptions)) \<le> int (fileSize g))
        (duplicateGroups exampleReport)
   \<and> map seenRelativePath
        (filter (belowMin (constructor exampleOptions))
           (seenBelow examplePlatform (constructor exampleOptions) ''/r'' exampleListing))
       = [''t.png'']
   \<and> length (seenBelow examplePlatform (constructor exampleOptions) ''/r'' exampleListing) = 8
   \<and> totalFilesScanned (stats exampleReport) = 8
   \<and> totalFilesProcessed (stats exampleReport) = 7
   \<and> totalFilesScanned (stats exampleReport)
       = length (seenBelow examplePlatform (constructor exampleOptions) ''/r'' exampleListing)
   \<and> totalFilesScanned (stats exampleReport)
       = totalFilesProcessed (stats exampleReport)
         + length (filter (belowMin (constructor exampleOptions))
             (seenBelow examplePlatform (constructor exampleOptions) ''/r'' exampleListing))"
proof -
  note run = example_run
  have m: "minSize (options (constructor exampleOptions)) = 2" by code_simp
  have sizes: "map (\<lambda>rc. fsize (fst rc))
        (hashed (snd (analyze examplePlatform ''/r'' exampleListing (constructor exampleOptions))))
       = [3, 3, 3, 4, 4, 3]" by code_simp
  have ok: "list_all (\<lambda>f. seenSize f \<noteq> None)
              (seenBelow examplePlatform (constructor exampleOptions) ''/r'' exampleListing)"
    by code_simp
  have small: "map seenRelativePath
        (filter (belowMin (constructor exampleOptions))
           (seenBelow examplePlatform (constructor exampleOptions) ''/r'' exampleListing))
       = [''t.png'']" by code_simp
  have len: "length (seenBelow examplePlatform (constructor exampleOptions) ''/r'' exampleListing) = 8"
    by code_simp
  have st: "totalFilesScanned (stats exampleReport) = 8"
    "totalFilesProcessed (stats exampleReport) = 7" by code_simp+
  note T = small_file_not_hashed_but_scanned[of examplePlatform "''/r''" exampleListing
             exampleOptions exampleReport]
  have "\<forall>g \<in> set (duplicateGroups exampleReport).
          minSize (options (constructor exampleOptions)) \<le> int (fileSize g)"
    using T run by blast
  then have "list_all (\<lambda>g. minSize (options (constructor exampleOptions)) \<le> int (fileSize g))
        (duplicateGroups exampleReport)"
    by (simp only: list_all_iff)
  moreover have "totalFilesScanned (stats exampleReport)
       = length (seenBelow examplePlatform (constructor exampleOptions) ''/r'' exampleListing)"
    using T run ok by blast
  moreover have "totalFilesScanned (stats exampleReport)
       = totalFilesProcessed (stats exampleReport)
         + length (filter (belowMin (constructor exampleOptions))
             (seenBelow examplePlatform (constructor exampleOptions) ''/r'' exampleListing))"
    using T run ok by blast
  ultimately show ?thesis using run m sizes small len st by blast
qed

subsection \<open>Two runs over the same tree\<close>

text \<open>
  Claim C9, as the code has it. The claim allows the two reports to differ only in the
  order of groups with equal \<open>wastedBytes\<close> when the directory listing comes in another
  order. The code also takes each group's member list in the order of the walk and its
  \<open>extension\<close> from the first member found: one directory with two copies of a file,
  listed in the two possible orders, gives two reports with a single group each, and the
  two groups differ.
\<close>

theorem listing_order_counterexample:
  "sameTree (DirEnt ''r'' listingAB) (DirEnt ''r'' listingBA)
   \<and> fst (analyze examplePlatform ''/r'' listingAB (constructor exampleOptions)) = Inr reportAB
   \<and> fst (analyze examplePlatform ''/r'' listingBA (constructor exampleOptions)) = Inr reportBA
   \<and> length (duplicateGroups reportAB) = 1
   \<and> length (duplicateGroups reportBA) = 1
   \<and> map files (duplicateGroups reportAB) = [[''a.png'', ''b.jpg'']]
   \<and> map files (duplicateGroups reportBA) = [[''b.jpg'', ''a.png'']]
   \<and> map gextension (duplicateGroups reportAB) = [''.png'']
   \<and> map gextension (duplicateGroups reportBA) = [''.jpg'']
   \<and> mset (duplicateGroups reportAB) \<noteq> mset (duplicateGroups reportBA)
   \<and> reportAB \<noteq> reportBA"
proof -
  have a: "fst (analyze examplePlatform ''/r'' listingAB (constructor exampleOptions)) = Inr reportAB"
    by code_simp
  have b: "fst (analyze examplePlatform ''/r'' listingBA (constructor exampleOptions)) = Inr reportBA"
    by code_simp
  have c: "mset (duplicateGroups reportAB) \<noteq> mset (duplicateGroups reportBA)"
    by (simp add: reportAB_def reportBA_def)
  have d: "reportAB \<noteq> reportBA" by (simp add: reportAB_def reportBA_def)
  show ?thesis using sameTree_AB a b c d by (simp add: reportAB_def reportBA_def)
qed

text \<open>
  Claim C9, amended. The report is a function of the options, the tree and the order of its
  listings, so two runs with the same listing order give the same report. When the
  listings of the same tree come in another order, and provided that no \<open>statSync\<close>
  call fails and that hashed files with the same digest have the same size, the
  statistics are the same and the duplicate groups are the same up to the order of the
  groups (both lists are in descending order of \<open>wastedBytes\<close>, so only groups of equal
  \<open>wastedBytes\<close> can change places), the order of each group's member list, and each
  group's \<open>extension\<close>.
\<close>

theorem listing_order_changes_only_order:
  fixes P dir listing listing' raw
  defines "tr \<equiv> hashed (snd (analyze P dir listing (constructor raw)))"
  assumes same: "sameTree (DirEnt name listing) (DirEnt name listing')"
      and ok: "statOk (DirEnt name listing)"
      and sizes: "\<forall>rc \<in> set tr. \<forall>rc' \<in> set tr. md5 P (snd rc) = md5 P (snd rc')
                    \<longrightarrow> fsize (fst rc) = fsize (fst rc')"
      and r1: "fst (analyze P dir listing (constructor raw)) = Inr rep"
      and r2: "fst (analyze P dir listing' (constructor raw)) = Inr rep'"
  shows "stats rep' = stats rep
       \<and> mset (map groupView (duplicateGroups rep')) = mset (map groupView (duplicateGroups rep))
       \<and> sorted_wrt (\<lambda>a b. wastedBytes a \<ge> wastedBytes b) (duplicateGroups rep)
       \<and> sorted_wrt (\<lambda>a b. wastedBytes a \<ge> wastedBytes b) (duplicateGroups rep')
       \<and> (listing' = listing \<longrightarrow> rep' = rep)"
proof -
  define tr2 where "tr2 = hashed (snd (analyze P dir listing' (constructor raw)))"
  let ?big = "\<lambda>e :: string \<times> file_record list. length (snd e) > 1"
  let ?dup1 = "map mkGroup (filter ?big (replay P tr))"
  let ?dup2 = "map mkGroup (filter ?big (replay P tr2))"
  note f1 = fresh_report[OF r1, folded tr_def] and f2 = fresh_report[OF r2, folded tr2_def]
  note fa = final_agree[OF same ok, of P dir raw, folded tr_def tr2_def]
  have perm: "mset tr = mset tr2" using fa(1) by simp
  have dv: "mset (map groupView ?dup2) = mset (map groupView ?dup1)"
    using perm sizes by (rule dup_views_perm)
  have g1: "mset (map groupView (duplicateGroups rep)) = mset (map groupView ?dup1)"
    unfolding f1(7) by (simp only: mset_map mset_array_sort)
  have g2: "mset (map groupView (duplicateGroups rep')) = mset (map groupView ?dup2)"
    unfolding f2(7) by (simp only: mset_map mset_array_sort)
  have views: "mset (map groupView (duplicateGroups rep')) = mset (map groupView (duplicateGroups rep))"
    using g1 g2 dv by simp
  have scanned: "totalFilesScanned (stats rep') = totalFilesScanned (stats rep)"
    using f1(1) f2(1) fa(2) by simp
  have processed: "totalFilesProcessed (stats rep') = totalFilesProcessed (stats rep)"
    using f1(2) f2(2) fa(3) by simp
  have "set tr = set tr2" using perm by (rule mset_eq_setD)
  then have "mset (map fst (replay P tr2)) = mset (map fst (replay P tr))"
    by (simp only: mset_keys_replay)
  then have "length (map fst (replay P tr2)) = length (map fst (replay P tr))"
    by (rule mset_eq_length)
  then have unique: "uniqueFiles (stats rep') = uniqueFiles (stats rep)"
    using f1(3) f2(3) by simp
  have "length (map groupView (duplicateGroups rep')) = length (map groupView (duplicateGroups rep))"
    using views by (rule mset_eq_length)
  then have ngroups: "numDuplicateGroups (stats rep') = numDuplicateGroups (stats rep)"
    using f1(4) f2(4) by simp
  have c1: "\<forall>g \<in> set (duplicateGroups rep). 1 \<le> gcount g"
    unfolding f1(7) by (rule gcount_mkGroup)
  have c2: "\<forall>g \<in> set (duplicateGroups rep'). 1 \<le> gcount g"
    unfolding f2(7) by (rule gcount_mkGroup)
  have "sum_list (map (\<lambda>g. fst (snd (groupView g)) - 1) (duplicateGroups rep'))
          = sum_list (map (\<lambda>g. fst (snd (groupView g)) - 1) (duplicateGroups rep))"
    using views by (rule sum_by_view[where f = "\<lambda>v. fst (snd v) - 1"])
  then have "sum_list (map (\<lambda>g. gcount g - 1) (duplicateGroups rep'))
          = sum_list (map (\<lambda>g. gcount g - 1) (duplicateGroups rep))"
    by (simp add: groupView_def)
  then have dups: "totalDuplicates (stats rep') = totalDuplicates (stats rep)"
    using f1(5) f2(5) foldl_duplicates[OF c1, of 0] foldl_duplicates[OF c2, of 0] by simp
  have "sum_list (map (\<lambda>g. fst (snd (snd (snd (groupView g))))) ?dup2)
          = sum_list (map (\<lambda>g. fst (snd (snd (snd (groupView g))))) ?dup1)"
    using dv by (rule sum_by_view[where f = "\<lambda>v. fst (snd (snd (snd v)))"])
  then have "sum_list (map wastedBytes ?dup2) = sum_list (map wastedBytes ?dup1)"
    by (simp add: groupView_def)
  then have wasted: "totalWastedBytes (stats rep') = totalWastedBytes (stats rep)"
    using f1(6) f2(6) by simp
  have st: "stats rep' = stats rep"
    using scanned processed unique ngroups dups wasted by (intro stats.equality) simp_all
  have s1: "sorted_wrt (\<lambda>a b. wastedBytes a \<ge> wastedBytes b) (duplicateGroups rep)"
    unfolding f1(7) by (rule sorted_by_wasted)
  have s2: "sorted_wrt (\<lambda>a b. wastedBytes a \<ge> wastedBytes b) (duplicateGroups rep')"
    unfolding f2(7) by (rule sorted_by_wasted)
  have "rep' = rep" if "listing' = listing" using r1 r2 that by simp
  then show ?thesis using st views s1 s2 by blast
qed

theorem listing_order_witness:
  "sameTree (DirEnt ''r'' listingAB) (DirEnt ''r'' listingBA)
   \<and> statOk (DirEnt ''r'' listingAB)
   \<and> fst (analyze examplePlatform ''/r'' listingAB (constructor exampleOptions)) = Inr reportAB
   \<and> fst (analyze examplePlatform ''/r'' listingBA (constructor exampleOptions)) = Inr reportBA
   \<and> stats reportBA = stats reportAB
   \<and> mset (map groupView (duplicateGroups reportBA)) = mset (map groupView (duplicateGroups reportAB))"
proof -
  have a: "fst (analyze examplePlatform ''/r'' listingAB (constructor exampleOptions)) = Inr reportAB"
    by code_simp
  have b: "fst (analyze examplePlatform ''/r'' listingBA (constructor exampleOptions)) = Inr reportBA"
    by code_simp
  have ok: "statOk (DirEnt ''r'' listingAB)" by code_simp
  have tr: "map (\<lambda>rc. (fsize (fst rc), snd rc))
              (hashed (snd (analyze examplePlatform ''/r'' listingAB (constructor exampleOptions))))
            = [(3, ''abc''), (3, ''abc'')]"
    by code_simp
  have "\<forall>x \<in> set (map (\<lambda>rc. (fsize (fst rc), snd rc))
              (hashed (snd (analyze examplePlatform ''/r'' listingAB (constructor exampleOptions))))).
          fst x = 3"
    unfolding tr by simp
  then have sizes: "\<forall>rc \<in> set (hashed (snd (analyze examplePlatform ''/r'' listingAB (constructor exampleOptions)))).
          \<forall>rc' \<in> set (hashed (snd (analyze examplePlatform ''/r'' listingAB (constructor exampleOptions)))).
            md5 examplePlatform (snd rc) = md5 examplePlatform (snd rc')
              \<longrightarrow> fsize (fst rc) = fsize (fst rc')"
    by simp
  from listing_order_changes_only_order[OF sameTree_AB ok sizes a b]
  show ?thesis using sameTree_AB ok a b by blast
qed

end
